theory Spec2Isabelle
  imports Main
begin

text \<open>
  A model of \<open>packages/zodfig/src/index.ts\<close>: the class \<open>ZodFig\<close> (a zod schema
  paired with configuration data, composed by \<open>merge\<close>, \<open>override\<close> and
  \<open>overrideAync\<close>), the function \<open>run\<close> that generates the configuration of
  one file, and the function \<open>go\<close> of the command, which reruns it when a watched
  file changes. The definitions come first, the properties after them.
\<close>

section \<open>Configuration values\<close>

text \<open>
  The data of a \<open>ZodFig\<close> is a JavaScript value. The model keeps the values a
  configuration is written with: \<open>undefined\<close>, \<open>null\<close>, booleans, numbers (the
  integers and \<open>NaN\<close>), strings, arrays and plain objects. An object is the list of
  its own enumerable properties in the order they were added (keys that look like array
  indices, which JavaScript enumerates first, are not set apart); a JavaScript object
  never holds one key twice (\<open>distinct_keys\<close>). Functions, dates and other host
  objects are not configuration values here.

  An object or array has an identity, which \<open>===\<close> compares. \<open>Some r\<close> is the
  object known by the reference \<open>r\<close>: the same object wherever \<open>r\<close> stands.
  \<open>None\<close> is an object referenced from this one place only, such as a literal or a
  copy just made: an object different from every other.
\<close>

type_synonym ident = "nat option"

datatype jval =
    JUndefined
  | JNull
  | JBool bool
  | JNum int
  | JNaN
  | JStr string
  | JArr ident "jval list"
  | JObj ident "(string \<times> jval) list"

type_synonym props = "(string \<times> jval) list"

definition distinct_keys :: "props \<Rightarrow> bool" where
  "distinct_keys fs = distinct (map fst fs)"

text \<open>
  \<open>target[key]\<close> on a plain object reads an own property, or else follows the
  prototype chain to \<open>Object.prototype\<close>, whose members are functions (the accessor
  \<open>__proto__\<close> apart), or else is \<open>undefined\<close>.
\<close>

definition Object_prototype :: "string list" where
  "Object_prototype =
     [''constructor'', ''__defineGetter__'', ''__defineSetter__'', ''hasOwnProperty'',
      ''__lookupGetter__'', ''__lookupSetter__'', ''isPrototypeOf'',
      ''propertyIsEnumerable'', ''toString'', ''valueOf'', ''__proto__'',
      ''toLocaleString'']"

datatype found = Own jval | Inherited | Missing

definition get_prop :: "props \<Rightarrow> string \<Rightarrow> found" where
  "get_prop target key =
     (case map_of target key of
        Some v \<Rightarrow> Own v
      | None \<Rightarrow> if key \<in> set Object_prototype then Inherited else Missing)"

text \<open>
  \<open>target[key] = v\<close>: an existing own property keeps its place, a new one is added
  last.
\<close>

fun set_prop :: "props \<Rightarrow> string \<Rightarrow> jval \<Rightarrow> props" where
  "set_prop [] key v = [(key, v)]"
| "set_prop ((k, w) # fs) key v =
     (if k = key then (k, v) # fs else (k, w) # set_prop fs key v)"

section \<open>Errors\<close>

text \<open>
  Errors are values. \<open>ZodError\<close> carries zod's issues (path and message),
  \<open>KnownError\<close> (of \<open>./utils\<close>) its message; \<open>TypeError\<close>, \<open>RangeError\<close> and
  \<open>ReferenceError\<close> are those the language raises in the code modelled here, and
  \<open>OtherError\<close> is anything else a collaborator throws. \<open>Unmodelled\<close> is no error
  of the language: it marks a call that goes on inside a built-in function object, where
  the model does not follow it (see \<open>merge\<close>).
\<close>

type_synonym issue = "string list \<times> string"

datatype error =
    ZodError "issue list"
  | KnownError string
  | TypeError
  | RangeError
  | ReferenceError
  | OtherError string
  | Unmodelled

section \<open>The package merge-deep\<close>

text \<open>
  \<open>mergeDeep\<close> (line 4 of the source) is the default export of the npm package
  merge-deep, which is not part of the repository. It is transcribed from the
  package's \<open>index.js\<close> (version 3.0.3) and its helpers arr-union, clone-deep and
  kind-of:
  \<^verbatim>\<open>
  module.exports = function mergeDeep(orig, objects) {
    if (!isObject(orig) && !Array.isArray(orig)) { orig = {}; }
    var target = clone(orig);
    var len = arguments.length;
    var idx = 0;
    while (++idx < len) {
      var val = arguments[idx];
      if (isObject(val) || Array.isArray(val)) { merge(target, val); }
    }
    return target;
  };
  function merge(target, obj) {
    for (var key in obj) {
      if (!isValidKey(key) || !hasOwn(obj, key)) { continue; }
      var oldVal = obj[key];
      var newVal = target[key];
      if (isObject(newVal) && isObject(oldVal)) {
        target[key] = merge(newVal, oldVal);
      } else if (Array.isArray(newVal)) {
        target[key] = union([], newVal, oldVal);
      } else {
        target[key] = clone(oldVal);
      }
    }
    return target;
  }
  function hasOwn(obj, key) {
    return Object.prototype.hasOwnProperty.call(obj, key);
  }
  function isObject(val) {
    return typeOf(val) === 'object' || typeOf(val) === 'function';
  }
  function isValidKey(key) {
    return key !== '__proto__' && key !== 'constructor' && key !== 'prototype';
  }
  \<close>
  and, from arr-union,
  \<^verbatim>\<open>
  module.exports = function union(init) {
    if (!Array.isArray(init)) {
      throw new TypeError('arr-union expects the first argument to be an array.');
    }
    var len = arguments.length;
    var i = 0;
    while (++i < len) {
      var arg = arguments[i];
      if (!arg) continue;
      if (!Array.isArray(arg)) { arg = [arg]; }
      for (var j = 0; j < arg.length; j++) {
        var ele = arg[j];
        if (init.indexOf(ele) >= 0) { continue; }
        init.push(ele);
      }
    }
    return init;
  };
  \<close>
  \<open>merge\<close> always calls \<open>union\<close> with a new \<open>[]\<close> for \<open>init\<close>, so its
  \<open>TypeError\<close> is never raised. \<open>typeOf\<close> (kind-of) answers \<open>'object'\<close> for a
  plain object, \<open>'array'\<close> for an array and \<open>'function'\<close> for a function.
\<close>

definition isObject :: "jval \<Rightarrow> bool" where
  "isObject v = (case v of JObj _ _ \<Rightarrow> True | _ \<Rightarrow> False)"

definition isArray :: "jval \<Rightarrow> bool" where
  "isArray v = (case v of JArr _ _ \<Rightarrow> True | _ \<Rightarrow> False)"

definition isValidKey :: "string \<Rightarrow> bool" where
  "isValidKey key =
     (key \<noteq> ''__proto__'' \<and> key \<noteq> ''constructor'' \<and> key \<noteq> ''prototype'')"

text \<open>JavaScript truthiness, as \<open>!arg\<close> and \<open>if (this._config)\<close> test it.\<close>

fun truthy :: "jval \<Rightarrow> bool" where
  "truthy JUndefined = False"
| "truthy JNull = False"
| "truthy (JBool b) = b"
| "truthy (JNum n) = (n \<noteq> 0)"
| "truthy JNaN = False"
| "truthy (JStr s) = (s \<noteq> [])"
| "truthy (JArr _ _) = True"
| "truthy (JObj _ _) = True"

text \<open>
  \<open>===\<close>, as \<open>indexOf\<close> compares: primitives by value (\<open>NaN\<close> equals nothing),
  objects and arrays by identity.
\<close>

definition strict_eq :: "jval \<Rightarrow> jval \<Rightarrow> bool" where
  "strict_eq x y =
     (case (x, y) of
        (JUndefined, JUndefined) \<Rightarrow> True
      | (JNull, JNull) \<Rightarrow> True
      | (JBool a, JBool b) \<Rightarrow> a = b
      | (JNum a, JNum b) \<Rightarrow> a = b
      | (JStr a, JStr b) \<Rightarrow> a = b
      | (JArr (Some r) _, JArr (Some r') _) \<Rightarrow> r = r'
      | (JObj (Some r) _, JObj (Some r') _) \<Rightarrow> r = r'
      | _ \<Rightarrow> False)"

definition indexOf_found :: "jval list \<Rightarrow> jval \<Rightarrow> bool" where
  "indexOf_found init ele = list_ex (\<lambda>x. strict_eq x ele) init"

text \<open>The inner loop of \<open>union\<close>: push every element not yet in \<open>init\<close>.\<close>

fun push_new :: "jval list \<Rightarrow> jval list \<Rightarrow> jval list" where
  "push_new init [] = init"
| "push_new init (ele # rest) =
     push_new (if indexOf_found init ele then init else init @ [ele]) rest"

text \<open>The outer loop of \<open>union\<close>, over the arguments after \<open>init\<close>.\<close>

fun arr_union :: "jval list \<Rightarrow> jval list \<Rightarrow> jval list" where
  "arr_union init [] = init"
| "arr_union init (arg # args) =
     (if \<not> truthy arg then arr_union init args
      else arr_union (push_new init (case arg of JArr _ xs \<Rightarrow> xs | _ \<Rightarrow> [arg])) args)"

text \<open>
  \<open>clone\<close> (clone-deep 0.2.4) returns a primitive as it is and copies an array element
  by element and a plain object property by property
  (\<^verbatim>\<open>res[key] = cloneDeep(obj[key])\<close>), each into a new object. What it takes for a
  plain object is decided by is-plain-object, which reads \<open>o.constructor\<close>: an object
  with an own property \<open>constructor\<close> that is no function is returned as it is, not
  copied. And for an own property \<open>__proto__\<close> the assignment sets the prototype of
  the copy, not a property. The function below is clone-deep on the values in which no
  object has an own property of either name (\<open>clonable\<close>); the statements that speak
  of copies ask for such values.
\<close>

fun clone :: "jval \<Rightarrow> jval" where
  "clone (JArr _ xs) = JArr None (map clone xs)"
| "clone (JObj _ fs) = JObj None (map (\<lambda>p. (fst p, clone (snd p))) fs)"
| "clone v = v"

fun clonable :: "jval \<Rightarrow> bool" where
  "clonable (JArr _ xs) = list_all clonable xs"
| "clonable (JObj _ fs) =
     list_all (\<lambda>p. fst p \<noteq> ''constructor'' \<and> fst p \<noteq> ''__proto__'' \<and> clonable (snd p)) fs"
| "clonable v = True"

text \<open>
  \<open>merge(target, obj)\<close>: the loop over the own keys of \<open>obj\<close>, writing into
  \<open>target\<close>; it returns \<open>target\<close>, the object it was given. When \<open>target[key]\<close>
  is an inherited function and \<open>obj[key]\<close> an object, \<open>isObject\<close> holds of both and
  the package merges into the built-in function itself: what that does depends on the
  properties the function has by then, and the model stops with \<open>Unmodelled\<close>.
\<close>

fun merge :: "props \<Rightarrow> props \<Rightarrow> error + props" where
  "merge target [] = Inr target"
| "merge target ((key, oldVal) # rest) =
     (if \<not> isValidKey key then merge target rest
      else case (get_prop target key, oldVal) of
             (Own (JObj i t), JObj _ ob) \<Rightarrow>
               (case merge t ob of
                  Inl e \<Rightarrow> Inl e
                | Inr t' \<Rightarrow> merge (set_prop target key (JObj i t')) rest)
           | (Inherited, JObj _ ob) \<Rightarrow> Inl Unmodelled
           | (Own (JArr i xs), _) \<Rightarrow>
               merge (set_prop target key (JArr None (arr_union [] [JArr i xs, oldVal]))) rest
           | _ \<Rightarrow> merge (set_prop target key (clone oldVal)) rest)"

text \<open>
  \<open>for (var key in obj)\<close> over an array enumerates its indices as decimal strings.
\<close>

function show_nat :: "nat \<Rightarrow> string" where
  "show_nat n =
     (if n < 10 then [char_of (48 + n)]
      else show_nat (n div 10) @ [char_of (48 + n mod 10)])"
  by pat_completeness auto
termination
  by (relation "measure id") auto

definition own_props :: "jval \<Rightarrow> props" where
  "own_props v =
     (case v of
        JObj _ fs \<Rightarrow> fs
      | JArr _ xs \<Rightarrow> zip (map show_nat [0..<length xs]) xs
      | _ \<Rightarrow> [])"

text \<open>The \<open>while\<close> loop of \<open>mergeDeep\<close> over the arguments after \<open>orig\<close>.\<close>

fun mergeDeep_loop :: "props \<Rightarrow> jval list \<Rightarrow> error + props" where
  "mergeDeep_loop target [] = Inr target"
| "mergeDeep_loop target (val # vals) =
     (if isObject val \<or> isArray val
      then (case merge target (own_props val) of
              Inl e \<Rightarrow> Inl e
            | Inr target' \<Rightarrow> mergeDeep_loop target' vals)
      else mergeDeep_loop target vals)"

text \<open>
  \<open>mergeDeep(orig, ...objects)\<close>. Both calls in the source pass the literal \<open>{}\<close>
  for \<open>orig\<close>, so \<open>orig\<close> is taken as an object, given by its properties; the
  result is the new object \<open>target\<close>.
\<close>

definition mergeDeep :: "props \<Rightarrow> jval list \<Rightarrow> error + jval" where
  "mergeDeep orig objects =
     (case mergeDeep_loop (map (\<lambda>p. (fst p, clone (snd p))) orig) objects of
        Inl e \<Rightarrow> Inl e
      | Inr target \<Rightarrow> Inr (JObj None target))"

section \<open>ZodFig\<close>

text \<open>
  A \<open>ZodFig\<close> pairs a zod schema (\<open>_schema\<close>) with a configuration value
  (\<open>_config\<close>). zod is a library outside the repository: the schema is a type
  parameter, and zod's \<open>merge\<close> of two object schemas is passed to the one method
  that calls it.
\<close>

record 's ZodFig =
  schema :: 's
  config :: jval

text \<open>
  The constructor stores both fields. \<open>Object.freeze\<close> changes no value; what it
  changes is modelled on the store, in the section on frozen objects.
\<close>

definition new_ZodFig :: "'s \<Rightarrow> jval \<Rightarrow> 's ZodFig" where
  "new_ZodFig s c = \<lparr>schema = s, config = c\<rparr>"

text \<open>\<open>v ?? d\<close>\<close>

definition nullish_or :: "jval \<Rightarrow> jval \<Rightarrow> jval" where
  "nullish_or v d = (if v = JUndefined \<or> v = JNull then d else v)"

text \<open>
  \<open>merge(merging)\<close>, line 39:
  \<^verbatim>\<open>new ZodFig(this._schema.merge(merging._schema),
       mergeDeep({}, this._config ?? {}, merging._config ?? {}))\<close>
\<close>

definition ZodFig_merge ::
  "('s \<Rightarrow> 's \<Rightarrow> 's) \<Rightarrow> 's ZodFig \<Rightarrow> 's ZodFig \<Rightarrow> error + 's ZodFig" where
  "ZodFig_merge zod_merge this merging =
     (case mergeDeep [] [nullish_or (config this) (JObj None []),
                         nullish_or (config merging) (JObj None [])] of
        Inl e \<Rightarrow> Inl e
      | Inr data \<Rightarrow> Inr (new_ZodFig (zod_merge (schema this) (schema merging)) data))"

text \<open>
  \<open>override(config)\<close>, line 49:
  \<^verbatim>\<open>new ZodFig(this._schema, mergeDeep({}, this._config, config))\<close>
\<close>

definition override :: "'s ZodFig \<Rightarrow> jval \<Rightarrow> error + 's ZodFig" where
  "override this cfg =
     (case mergeDeep [] [config this, cfg] of
        Inl e \<Rightarrow> Inl e
      | Inr data \<Rightarrow> Inr (new_ZodFig (schema this) data))"

text \<open>
  The value the loop body of \<open>merge\<close> assigns to \<open>target[key]\<close>, from what
  \<open>target[key]\<close> finds (\<open>newVal\<close>) and the value \<open>oldVal\<close> of the object merged
  in.
\<close>

definition merged_value :: "found \<Rightarrow> jval \<Rightarrow> error + jval" where
  "merged_value newVal oldVal =
     (case (newVal, oldVal) of
        (Own (JObj i t), JObj _ ob) \<Rightarrow>
          (case merge t ob of Inl e \<Rightarrow> Inl e | Inr t' \<Rightarrow> Inr (JObj i t'))
      | (Inherited, JObj _ ob) \<Rightarrow> Inl Unmodelled
      | (Own (JArr i xs), _) \<Rightarrow> Inr (JArr None (arr_union [] [JArr i xs, oldVal]))
      | _ \<Rightarrow> Inr (clone oldVal))"

section \<open>The run of one configuration file\<close>

text \<open>What \<open>console.log\<close> is given.\<close>

datatype logged =
    Line string
  | Issues "issue list"
  | Json jval
  | Thrown error

text \<open>
  The state \<open>run\<close> reads and writes: the module variable \<open>isWatching\<close>, the
  console, the files \<open>require\<close> loaded and the values handed to \<open>write\<close> that it
  persisted.
\<close>

record world =
  isWatching :: bool
  console :: "logged list"
  required :: "string list"
  written :: "jval list"

text \<open>
  What \<open>await fn()\<close> yields when the factory settles with a value: a \<open>ZodFig\<close>, or
  something else (on which \<open>zodfig._schema.parse\<close> raises a \<open>TypeError\<close>).
\<close>

datatype 's returned = Returned_ZodFig "'s ZodFig" | Returned_other

text \<open>
  What \<open>require(filepath)\<close> returns: no exports object to destructure, a \<open>default\<close>
  that is not a function, or a function, given by the settled outcome of calling it.
\<close>

datatype 's exports =
    NoExports
  | DefaultNotFunction
  | DefaultFunction "error + 's returned"

text \<open>
  The collaborators of \<open>run\<close>, none of them under the sources: the file system, the
  module loader, zod's \<open>parse\<close> and \<open>write\<close> of \<open>./write\<close> (here
  \<open>write_files\<close>).
\<close>

record 's host =
  existsSync :: "string \<Rightarrow> bool"
  require :: "string \<Rightarrow> error + 's exports"
  parse :: "'s \<Rightarrow> jval \<Rightarrow> error + jval"
  write_files :: "jval \<Rightarrow> error + unit"

definition log :: "logged \<Rightarrow> world \<Rightarrow> world" where
  "log x w = w\<lparr>console := console w @ [x]\<rparr>"

text \<open>How a block ends: it runs through, it returns from the function, or it throws.\<close>

datatype completion = Normal | Return | Throw error

text \<open>
  The \<open>try\<close> block of \<open>run\<close>, lines 149 to 164. (\<open>delete require.cache[filepath]\<close>
  makes \<open>require\<close> load the file anew; what the load yields is the host's answer.)
\<close>

definition run_try :: "'s host \<Rightarrow> string \<Rightarrow> bool \<Rightarrow> world \<Rightarrow> completion \<times> world" where
  "run_try h filepath print w =
     (if \<not> existsSync h filepath then (Return, w)
      else
        let w1 = log (Line (''Writing config for '' @ filepath)) w;
            w2 = w1\<lparr>required := required w1 @ [filepath]\<rparr>
        in case require h filepath of
             Inl e \<Rightarrow> (Throw e, w2)
           | Inr NoExports \<Rightarrow> (Throw TypeError, w2)
           | Inr DefaultNotFunction \<Rightarrow>
               (Throw (KnownError (''Expected '' @ filepath @ '' to export default function.'')), w2)
           | Inr (DefaultFunction outcome) \<Rightarrow>
               (case outcome of
                  Inl e \<Rightarrow> (Throw e, w2)
                | Inr Returned_other \<Rightarrow> (Throw TypeError, w2)
                | Inr (Returned_ZodFig zodfig) \<Rightarrow>
                    (case parse h (schema zodfig) (config zodfig) of
                       Inl e \<Rightarrow> (Throw e, w2)
                     | Inr parsed \<Rightarrow>
                         let w3 = (if print then log (Json parsed) w2 else w2)
                         in case write_files h parsed of
                              Inl e \<Rightarrow> (Throw e, w3)
                            | Inr _ \<Rightarrow>
                                (Normal,
                                 log (Line (''Config files written for '' @ filepath))
                                   (w3\<lparr>written := written w3 @ [parsed]\<rparr>)))))"

text \<open>The \<open>catch\<close> block, lines 165 to 174.\<close>

definition run_catch :: "error \<Rightarrow> world \<Rightarrow> world" where
  "run_catch e w =
     (case e of
        ZodError errors \<Rightarrow>
          log (Issues errors)
            (log (Line (''Zod validation error'' @ (if length errors > 1 then ''s'' else []))) w)
      | KnownError message \<Rightarrow> log (Line message) w
      | _ \<Rightarrow> log (Thrown e) w)"

text \<open>
  Lines 175 to 177, after the \<open>try\<close> statement:
  \<^verbatim>\<open>if (isWatching && runIn === INITIAL_WORKING_DIR) { console.log('Waiting for changes...'); }\<close>
  The file declares and imports no \<open>runIn\<close>. When \<open>isWatching\<close> holds, \<open>&&\<close>
  goes on to evaluate \<open>runIn\<close>, which raises a \<open>ReferenceError\<close>, outside the
  \<open>try\<close> block; when it does not hold, the condition is false. The line is printed
  in neither case.
\<close>

definition run_after :: "world \<Rightarrow> (error + unit) \<times> world" where
  "run_after w = (if isWatching w then (Inl ReferenceError, w) else (Inr (), w))"

text \<open>
  \<open>run(filepath, print)\<close>: the promise it returns is fulfilled (\<open>Inr\<close>) or rejected
  (\<open>Inl\<close>); the world is as \<open>run\<close> leaves it in both cases. The \<open>return\<close> of
  line 150 leaves the function from inside the \<open>try\<close> block, past the lines after
  it.
\<close>

definition run :: "'s host \<Rightarrow> string \<Rightarrow> bool \<Rightarrow> world \<Rightarrow> (error + unit) \<times> world" where
  "run h filepath print w =
     (case run_try h filepath print w of
        (Return, w') \<Rightarrow> (Inr (), w')
      | (Normal, w') \<Rightarrow> run_after w'
      | (Throw e, w') \<Rightarrow> run_after (run_catch e w'))"


section \<open>The command: go and the watcher\<close>

text \<open>
  The options of the command line: the command to run after generating, \<open>--watch\<close>
  and \<open>--verbose\<close>. \<open>if (command)\<close> holds for a string that is not empty.
\<close>

record options =
  command :: "string option"
  watch :: bool
  verbose :: bool

text \<open>
  The state of the action of \<open>cli\<close>: its variables \<open>going\<close>, \<open>shouldRego\<close> and
  \<open>activeCmd\<close> (the name of the command spawned last), the module's state, and what
  the event loop holds: the callbacks \<open>setTimeout(go, 0)\<close> queued, the calls of
  \<open>run\<close> a suspended \<open>go\<close> is waiting for (with the path they were given), the
  argument of every call of \<open>run\<close> made so far (\<open>None\<close> for \<open>undefined\<close>), the
  errors the promises of \<open>go\<close> were rejected with, the commands sent SIGTERM and
  spawned, and whether \<open>process.exit\<close> was called. The lines \<open>go\<close> prints are left
  out.
\<close>

record cli_state =
  going :: bool
  shouldRego :: bool
  activeCmd :: "string option"
  globals :: world
  timers :: nat
  in_flight :: "string list"
  started :: "string option list"
  rejected :: "error list"
  stopped :: "string list"
  spawned :: "string list"
  exited :: bool

text \<open>\<open>filepaths[0]\<close> on an array: \<open>undefined\<close> when it is empty.\<close>

definition first_path :: "string list \<Rightarrow> string option" where
  "first_path filepaths = (case filepaths of [] \<Rightarrow> None | f # _ \<Rightarrow> Some f)"

text \<open>\<open>go\<close> after the \<open>await\<close> of line 90, when \<open>run\<close> has fulfilled: lines 91 to 109.\<close>

definition go_resume :: "options \<Rightarrow> cli_state \<Rightarrow> cli_state" where
  "go_resume p s =
     (let s1 = (case command p of
                  Some c \<Rightarrow>
                    if c \<noteq> [] then s\<lparr>activeCmd := Some c, spawned := spawned s @ [c]\<rparr>
                    else if \<not> watch p then s\<lparr>exited := True\<rparr> else s
                | None \<Rightarrow> if \<not> watch p then s\<lparr>exited := True\<rparr> else s)
      in if exited s1 then s1
         else
           let s2 = (if shouldRego s1 then s1\<lparr>timers := Suc (timers s1)\<rparr> else s1)
           in s2\<lparr>going := False\<rparr>)"

text \<open>
  \<open>go(filepaths)\<close> from its call to the \<open>await\<close> of line 90. \<open>filepaths\<close> is
  \<open>None\<close> when \<open>go\<close> is called without an argument, as \<open>setTimeout(go, 0)\<close> calls
  it: then \<open>filepaths[0]\<close> raises a \<open>TypeError\<close> before \<open>run\<close> is called, and the
  promise of \<open>go\<close> is rejected.

  \<open>run\<close> returns at line 150 without having waited for anything when its path does
  not exist (\<open>fs.existsSync(undefined)\<close> is false as well): its promise is fulfilled
  already, \<open>go\<close> goes on in the same turn of the event loop, before any event of the
  watcher or any timer is delivered, and the world is as it was. Otherwise \<open>go\<close> is
  suspended until the run has settled, and events can be delivered meanwhile.
\<close>

definition go_enter ::
  "'s host \<Rightarrow> options \<Rightarrow> string list option \<Rightarrow> cli_state \<Rightarrow> cli_state" where
  "go_enter h p filepaths s =
     (if going s then s\<lparr>shouldRego := True\<rparr>
      else
        let s1 = (if shouldRego s then s\<lparr>shouldRego := False\<rparr> else s);
            s2 = (case activeCmd s1 of
                    Some name \<Rightarrow> s1\<lparr>stopped := stopped s1 @ [name]\<rparr>
                  | None \<Rightarrow> s1);
            s3 = s2\<lparr>going := True, globals := (globals s2)\<lparr>isWatching := watch p\<rparr>\<rparr>
        in case filepaths of
             None \<Rightarrow> s3\<lparr>rejected := rejected s3 @ [TypeError]\<rparr>
           | Some fs \<Rightarrow>
               let s4 = s3\<lparr>started := started s3 @ [first_path fs]\<rparr>
               in case first_path fs of
                    None \<Rightarrow> go_resume p s4
                  | Some f \<Rightarrow>
                      if existsSync h f then s4\<lparr>in_flight := in_flight s4 @ [f]\<rparr>
                      else go_resume p s4)"

text \<open>
  What the event loop delivers: a change of a watched file (\<open>add\<close> once the watcher is
  ready, or \<open>change\<close>), any other event of the watcher, the end of the \<open>run\<close>
  waited for, a queued timer, the exit of the spawned command. When \<open>run\<close> rejects,
  the \<open>await\<close> of line 90 throws and the promise of \<open>go\<close> is rejected with the same
  error: the rest of \<open>go\<close> is not executed.
\<close>

datatype event = Change | OtherWatch | RunDone | TimerFired | CommandExit

definition step :: "'s host \<Rightarrow> options \<Rightarrow> string list \<Rightarrow> cli_state \<Rightarrow> event \<Rightarrow> cli_state" where
  "step h p configFiles s ev =
     (if exited s then s
      else case ev of
        Change \<Rightarrow> if watch p then go_enter h p (Some configFiles) s else s
      | OtherWatch \<Rightarrow>
          if watch p
          then (case activeCmd s of
                  Some name \<Rightarrow> s\<lparr>stopped := stopped s @ [name], exited := True\<rparr>
                | None \<Rightarrow> s\<lparr>exited := True\<rparr>)
          else s
      | RunDone \<Rightarrow>
          (case in_flight s of
             [] \<Rightarrow> s
           | filepath # rest \<Rightarrow>
               (case run h filepath (verbose p) (globals s) of
                  (Inl e, w) \<Rightarrow>
                    s\<lparr>in_flight := rest, globals := w, rejected := rejected s @ [e]\<rparr>
                | (Inr _, w) \<Rightarrow> go_resume p (s\<lparr>in_flight := rest, globals := w\<rparr>)))
      | TimerFired \<Rightarrow>
          if timers s = 0 then s else go_enter h p None (s\<lparr>timers := timers s - 1\<rparr>)
      | CommandExit \<Rightarrow> if watch p \<or> spawned s = [] then s else s\<lparr>exited := True\<rparr>)"

text \<open>The state when the action calls \<open>go(configFiles)\<close> at line 142, and that call.\<close>

definition initial :: "world \<Rightarrow> cli_state" where
  "initial w =
     \<lparr>going = False, shouldRego = False, activeCmd = None, globals = w, timers = 0,
      in_flight = [], started = [], rejected = [], stopped = [], spawned = [],
      exited = False\<rparr>"

definition cli :: "'s host \<Rightarrow> options \<Rightarrow> string list \<Rightarrow> world \<Rightarrow> event list \<Rightarrow> cli_state" where
  "cli h p configFiles w events =
     foldl (step h p configFiles) (go_enter h p (Some configFiles) (initial w)) events"


section \<open>Objects in the store: freezing and aliasing\<close>

text \<open>
  Where a claim depends on who shares an object, values live in a store. A value is a
  primitive or a reference to a cell; a cell is an object or an array (an array holds
  its elements under the keys \<open>0\<close>, \<open>1\<close>, ...) with its own properties and the flag
  \<open>Object.freeze\<close> sets. An address is an index into the store; allocation appends.
  The functions below create no reference to an address outside the store; where one is
  met, they stop with \<open>Unmodelled\<close>.
\<close>

datatype hval = HUndefined | HNull | HBool bool | HNum int | HNaN | HStr string | HRef nat

record cell =
  props_of :: "(string \<times> hval) list"
  is_array :: bool
  frozen :: bool

type_synonym store = "cell list"

fun h_truthy :: "hval \<Rightarrow> bool" where
  "h_truthy HUndefined = False"
| "h_truthy HNull = False"
| "h_truthy (HBool b) = b"
| "h_truthy (HNum n) = (n \<noteq> 0)"
| "h_truthy HNaN = False"
| "h_truthy (HStr s) = (s \<noteq> [])"
| "h_truthy (HRef _) = True"

text \<open>An object or array literal: a new cell.\<close>

definition new_cell :: "(string \<times> hval) list \<Rightarrow> bool \<Rightarrow> store \<Rightarrow> hval \<times> store" where
  "new_cell ps arr st =
     (HRef (length st), st @ [\<lparr>props_of = ps, is_array = arr, frozen = False\<rparr>])"

text \<open>
  \<open>Object.freeze(v)\<close> marks the one object \<open>v\<close> refers to and returns; it does not
  visit the objects its properties refer to. On a primitive it does nothing.
\<close>

definition freeze :: "hval \<Rightarrow> store \<Rightarrow> store" where
  "freeze v st =
     (case v of
        HRef a \<Rightarrow> if a < length st then st[a := (st ! a)\<lparr>frozen := True\<rparr>] else st
      | _ \<Rightarrow> st)"

fun h_set_prop :: "(string \<times> hval) list \<Rightarrow> string \<Rightarrow> hval \<Rightarrow> (string \<times> hval) list" where
  "h_set_prop [] key v = [(key, v)]"
| "h_set_prop ((k, w) # fs) key v =
     (if k = key then (k, v) # fs else (k, w) # h_set_prop fs key v)"

text \<open>
  \<open>o[key] = v\<close> and \<open>delete o[key]\<close> on the object at address \<open>a\<close>; any reference
  to the object is the same address. A frozen object takes no write: in strict mode
  (\<open>strict\<close>) the assignment raises a \<open>TypeError\<close>, as does the deletion of a
  property the object has; in sloppy mode both are ignored without an error. Which mode
  applies is a matter of the code the write stands in.
\<close>

definition assign :: "bool \<Rightarrow> nat \<Rightarrow> string \<Rightarrow> hval \<Rightarrow> store \<Rightarrow> error + store" where
  "assign strict a key v st =
     (if \<not> a < length st then Inl Unmodelled
      else if frozen (st ! a) then (if strict then Inl TypeError else Inr st)
      else Inr (st[a := (st ! a)\<lparr>props_of := h_set_prop (props_of (st ! a)) key v\<rparr>]))"

definition delete_prop :: "bool \<Rightarrow> nat \<Rightarrow> string \<Rightarrow> store \<Rightarrow> error + store" where
  "delete_prop strict a key st =
     (if \<not> a < length st then Inl Unmodelled
      else if frozen (st ! a)
      then (if strict \<and> key \<in> fst ` set (props_of (st ! a)) then Inl TypeError else Inr st)
      else Inr (st[a := (st ! a)\<lparr>props_of := filter (\<lambda>p. fst p \<noteq> key) (props_of (st ! a))\<rparr>]))"

text \<open>
  Reading a value out of the store, to the depth \<open>fuel\<close> allows; an object or array
  is known by its address. \<open>None\<close>: the structure is deeper than that (it is cyclic
  when \<open>fuel\<close> exceeds the number of cells), or a reference points outside the store.
\<close>

fun reify :: "nat \<Rightarrow> store \<Rightarrow> hval \<Rightarrow> jval option" where
  "reify 0 st v = None"
| "reify (Suc fuel) st v =
     (case v of
        HUndefined \<Rightarrow> Some JUndefined
      | HNull \<Rightarrow> Some JNull
      | HBool b \<Rightarrow> Some (JBool b)
      | HNum n \<Rightarrow> Some (JNum n)
      | HNaN \<Rightarrow> Some JNaN
      | HStr s \<Rightarrow> Some (JStr s)
      | HRef a \<Rightarrow>
          if a < length st
          then (case those (map (\<lambda>p. map_option (Pair (fst p)) (reify fuel st (snd p)))
                             (props_of (st ! a))) of
                  None \<Rightarrow> None
                | Some fs \<Rightarrow>
                    Some (if is_array (st ! a) then JArr (Some a) (map snd fs)
                          else JObj (Some a) fs))
          else None)"

definition read_value :: "store \<Rightarrow> hval \<Rightarrow> jval option" where
  "read_value st v = reify (Suc (length st)) st v"

text \<open>Building a value in the store: every object and array of it gets a new cell.\<close>

fun alloc_val :: "jval \<Rightarrow> store \<Rightarrow> hval \<times> store"
  and alloc_vals :: "jval list \<Rightarrow> store \<Rightarrow> hval list \<times> store"
  and alloc_props :: "(string \<times> jval) list \<Rightarrow> store \<Rightarrow> (string \<times> hval) list \<times> store"
where
  "alloc_val JUndefined st = (HUndefined, st)"
| "alloc_val JNull st = (HNull, st)"
| "alloc_val (JBool b) st = (HBool b, st)"
| "alloc_val (JNum n) st = (HNum n, st)"
| "alloc_val JNaN st = (HNaN, st)"
| "alloc_val (JStr s) st = (HStr s, st)"
| "alloc_val (JArr _ xs) st =
     (case alloc_vals xs st of
        (rs, st1) \<Rightarrow> new_cell (zip (map show_nat [0..<length rs]) rs) True st1)"
| "alloc_val (JObj _ fs) st =
     (case alloc_props fs st of (ps, st1) \<Rightarrow> new_cell ps False st1)"
| "alloc_vals [] st = ([], st)"
| "alloc_vals (x # xs) st =
     (case alloc_val x st of
        (r, st1) \<Rightarrow> (case alloc_vals xs st1 of (rs, st2) \<Rightarrow> (r # rs, st2)))"
| "alloc_props [] st = ([], st)"
| "alloc_props ((k, x) # fs) st =
     (case alloc_val x st of
        (r, st1) \<Rightarrow> (case alloc_props fs st1 of (ps, st2) \<Rightarrow> ((k, r) # ps, st2)))"

subsection \<open>merge-deep on the store\<close>

text \<open>
  \<open>clone\<close> (clone-deep): a primitive is returned as it is; an array or a plain
  object is copied into a new cell, property by property, each value cloned in turn. The
  copy is not frozen. An object with an own property \<open>constructor\<close> is no plain object
  for clone-deep, which returns it as it is, and an own property \<open>__proto__\<close> becomes the
  prototype of the copy: what \<open>merge\<close> does with such a result is not followed, and
  the model stops with \<open>Unmodelled\<close>. clone-deep keeps no record of the objects it has
  visited: on a cyclic value it recurses until the stack is exhausted and a
  \<open>RangeError\<close> is raised. \<open>fuel\<close> bounds the depth of the recursion;
  \<open>mergeDeep\<close> gives it more than the number of cells, which only a cycle uses up.
\<close>

definition plain_object :: "cell \<Rightarrow> bool" where
  "plain_object c =
     (is_array c \<or>
      (''constructor'' \<notin> fst ` set (props_of c) \<and> ''__proto__'' \<notin> fst ` set (props_of c)))"

fun store_clone :: "nat \<Rightarrow> hval \<Rightarrow> store \<Rightarrow> (error + hval) \<times> store"
  and store_clone_props ::
    "nat \<Rightarrow> (string \<times> hval) list \<Rightarrow> store \<Rightarrow> (error + (string \<times> hval) list) \<times> store"
where
  "store_clone 0 v st = (case v of HRef _ \<Rightarrow> (Inl RangeError, st) | _ \<Rightarrow> (Inr v, st))"
| "store_clone (Suc fuel) v st =
     (case v of
        HRef a \<Rightarrow>
          if a < length st \<and> plain_object (st ! a)
          then (case store_clone_props fuel (props_of (st ! a)) st of
                  (Inl e, st1) \<Rightarrow> (Inl e, st1)
                | (Inr ps, st1) \<Rightarrow>
                    (case new_cell ps (is_array (st ! a)) st1 of (r, st2) \<Rightarrow> (Inr r, st2)))
          else (Inl Unmodelled, st)
      | _ \<Rightarrow> (Inr v, st))"
| "store_clone_props fuel [] st = (Inr [], st)"
| "store_clone_props fuel ((k, v) # ps) st =
     (case store_clone fuel v st of
        (Inl e, st1) \<Rightarrow> (Inl e, st1)
      | (Inr v', st1) \<Rightarrow>
          (case store_clone_props fuel ps st1 of
             (Inl e, st2) \<Rightarrow> (Inl e, st2)
           | (Inr ps', st2) \<Rightarrow> (Inr ((k, v') # ps'), st2)))"

text \<open>
  \<open>union([], newVal, oldVal)\<close> (arr-union): the elements of each truthy argument, or
  the argument itself when it is no array, are pushed onto the new array unless
  \<open>indexOf\<close> finds them there. The elements are pushed as they are: the new array
  refers to the very objects the arguments hold.
\<close>

definition h_strict_eq :: "hval \<Rightarrow> hval \<Rightarrow> bool" where
  "h_strict_eq x y = (x = y \<and> x \<noteq> HNaN)"

fun h_push_new :: "hval list \<Rightarrow> hval list \<Rightarrow> hval list" where
  "h_push_new init [] = init"
| "h_push_new init (ele # rest) =
     h_push_new (if list_ex (\<lambda>x. h_strict_eq x ele) init then init else init @ [ele]) rest"

definition h_isObject :: "store \<Rightarrow> hval \<Rightarrow> bool" where
  "h_isObject st v = (case v of HRef a \<Rightarrow> a < length st \<and> \<not> is_array (st ! a) | _ \<Rightarrow> False)"

definition h_isArray :: "store \<Rightarrow> hval \<Rightarrow> bool" where
  "h_isArray st v = (case v of HRef a \<Rightarrow> a < length st \<and> is_array (st ! a) | _ \<Rightarrow> False)"

definition elements_of :: "store \<Rightarrow> hval \<Rightarrow> hval list" where
  "elements_of st arg =
     (case arg of
        HRef a \<Rightarrow> if h_isArray st arg then map snd (props_of (st ! a)) else [arg]
      | _ \<Rightarrow> [arg])"

fun h_arr_union :: "store \<Rightarrow> hval list \<Rightarrow> hval list \<Rightarrow> hval list" where
  "h_arr_union st init [] = init"
| "h_arr_union st init (arg # args) =
     (if \<not> h_truthy arg then h_arr_union st init args
      else h_arr_union st (h_push_new init (elements_of st arg)) args)"

definition store_union :: "hval list \<Rightarrow> store \<Rightarrow> hval \<times> store" where
  "store_union args st =
     (let init = h_arr_union st [] args
      in new_cell (zip (map show_nat [0..<length init]) init) True st)"

text \<open>\<open>target[key]\<close>, as in \<open>get_prop\<close>.\<close>

datatype h_found = HOwn hval | HInherited | HMissing

definition h_get_prop :: "(string \<times> hval) list \<Rightarrow> string \<Rightarrow> h_found" where
  "h_get_prop target key =
     (case map_of target key of
        Some v \<Rightarrow> HOwn v
      | None \<Rightarrow> if key \<in> set Object_prototype then HInherited else HMissing)"

text \<open>
  The branch the loop body of \<open>merge\<close> takes, from \<open>newVal = target[key]\<close> and
  \<open>oldVal = obj[key]\<close>: merge the object \<open>oldVal\<close> into the object \<open>newVal\<close>;
  merge it into an inherited built-in function (not followed, see \<open>merge\<close>); unite
  the array \<open>newVal\<close> with \<open>oldVal\<close>; or clone \<open>oldVal\<close>.
\<close>

datatype branch = Recurse nat nat | Builtin | Unite hval | Clone

definition merge_branch :: "store \<Rightarrow> h_found \<Rightarrow> hval \<Rightarrow> branch" where
  "merge_branch st newVal oldVal =
     (case newVal of
        HOwn x \<Rightarrow>
          (case (x, oldVal) of
             (HRef a, HRef c) \<Rightarrow>
               if h_isObject st x \<and> h_isObject st oldVal then Recurse a c
               else if h_isArray st x then Unite x else Clone
           | _ \<Rightarrow> if h_isArray st x then Unite x else Clone)
      | HInherited \<Rightarrow> if h_isObject st oldVal then Builtin else Clone
      | HMissing \<Rightarrow> Clone)"

text \<open>
  \<open>merge(target, obj)\<close> on the objects at the addresses \<open>t\<close> and \<open>b\<close>: the loop over
  the keys \<open>obj\<close> had when it began. Each turn reads \<open>obj[key]\<close> and \<open>target[key]\<close>
  from the store as it is by then and assigns to \<open>target[key]\<close> (the package is in
  strict mode). The recursion of \<open>merge\<close> into the properties is bounded by \<open>fuel\<close>
  as in \<open>store_clone\<close>.
\<close>

fun store_merge_keys ::
  "nat \<Rightarrow> nat \<Rightarrow> nat \<Rightarrow> string list \<Rightarrow> store \<Rightarrow> (error + unit) \<times> store" where
  "store_merge_keys fuel t b [] st = (Inr (), st)"
| "store_merge_keys fuel t b (key # keys) st =
     (case (if isValidKey key then map_of (props_of (st ! b)) key else None) of
        None \<Rightarrow> store_merge_keys fuel t b keys st
      | Some oldVal \<Rightarrow>
          (case (case merge_branch st (h_get_prop (props_of (st ! t)) key) oldVal of
                   Recurse a c \<Rightarrow>
                     (case fuel of
                        0 \<Rightarrow> (Inl RangeError, st)
                      | Suc n \<Rightarrow>
                          (case store_merge_keys n a c (map fst (props_of (st ! c))) st of
                             (Inl e, st1) \<Rightarrow> (Inl e, st1)
                           | (Inr _, st1) \<Rightarrow> (Inr (HRef a), st1)))
                 | Builtin \<Rightarrow> (Inl Unmodelled, st)
                 | Unite x \<Rightarrow> (case store_union [x, oldVal] st of (r, st1) \<Rightarrow> (Inr r, st1))
                 | Clone \<Rightarrow> store_clone (Suc (length st)) oldVal st) of
             (Inl e, st1) \<Rightarrow> (Inl e, st1)
           | (Inr v, st1) \<Rightarrow>
               (case assign True t key v st1 of
                  Inl e \<Rightarrow> (Inl e, st1)
                | Inr st2 \<Rightarrow> store_merge_keys fuel t b keys st2)))"

text \<open>
  The value one turn of that loop assigns to \<open>target[key]\<close>, written out of
  \<open>store_merge_keys\<close> for the statements about it.
\<close>

definition merge_turn :: "nat \<Rightarrow> nat \<Rightarrow> string \<Rightarrow> hval \<Rightarrow> store \<Rightarrow> (error + hval) \<times> store" where
  "merge_turn fuel t key oldVal st =
     (case merge_branch st (h_get_prop (props_of (st ! t)) key) oldVal of
        Recurse a c \<Rightarrow>
          (case fuel of
             0 \<Rightarrow> (Inl RangeError, st)
           | Suc n \<Rightarrow>
               (case store_merge_keys n a c (map fst (props_of (st ! c))) st of
                  (Inl e, st1) \<Rightarrow> (Inl e, st1)
                | (Inr _, st1) \<Rightarrow> (Inr (HRef a), st1)))
      | Builtin \<Rightarrow> (Inl Unmodelled, st)
      | Unite x \<Rightarrow> (case store_union [x, oldVal] st of (r, st1) \<Rightarrow> (Inr r, st1))
      | Clone \<Rightarrow> store_clone (Suc (length st)) oldVal st)"

text \<open>
  The \<open>while\<close> loop of \<open>mergeDeep\<close>: every argument that is an object or an array is
  merged into \<open>target\<close>.
\<close>

fun store_mergeDeep_loop :: "nat \<Rightarrow> hval list \<Rightarrow> store \<Rightarrow> (error + unit) \<times> store" where
  "store_mergeDeep_loop t [] st = (Inr (), st)"
| "store_mergeDeep_loop t (val # vals) st =
     (case val of
        HRef b \<Rightarrow>
          if b < length st \<and> t < length st
          then (case store_merge_keys (length st) t b (map fst (props_of (st ! b))) st of
                  (Inl e, st1) \<Rightarrow> (Inl e, st1)
                | (Inr _, st1) \<Rightarrow> store_mergeDeep_loop t vals st1)
          else (Inl Unmodelled, st)
      | _ \<Rightarrow> store_mergeDeep_loop t vals st)"

text \<open>
  \<open>mergeDeep(orig, ...objects)\<close>: \<open>target\<close> is the clone of \<open>orig\<close>, or of a new
  \<open>{}\<close> when \<open>orig\<close> is no object; the arguments are merged into it and it is
  returned.
\<close>

definition store_mergeDeep :: "hval \<Rightarrow> hval list \<Rightarrow> store \<Rightarrow> (error + hval) \<times> store" where
  "store_mergeDeep orig objects st =
     (case (case orig of HRef _ \<Rightarrow> (orig, st) | _ \<Rightarrow> new_cell [] False st) of
        (orig', st0) \<Rightarrow>
          (case store_clone (Suc (length st0)) orig' st0 of
             (Inl e, st1) \<Rightarrow> (Inl e, st1)
           | (Inr target, st1) \<Rightarrow>
               (case target of
                  HRef t \<Rightarrow>
                    (case store_mergeDeep_loop t objects st1 of
                       (Inl e, st2) \<Rightarrow> (Inl e, st2)
                     | (Inr _, st2) \<Rightarrow> (Inr target, st2))
                | _ \<Rightarrow> (Inl Unmodelled, st1))))"

subsection \<open>ZodFig on the store\<close>

text \<open>A \<open>ZodFig\<close> in the store: \<open>_config\<close> is a reference (or a primitive).\<close>

record 's stored_ZodFig =
  stored_schema :: 's
  stored_config :: hval

text \<open>
  The constructor, lines 17 to 19:
  \<^verbatim>\<open>if (this._config) Object.freeze(this._config);\<close>
\<close>

definition construct :: "'s \<Rightarrow> hval \<Rightarrow> store \<Rightarrow> 's stored_ZodFig \<times> store" where
  "construct s c st =
     (\<lparr>stored_schema = s, stored_config = c\<rparr>, if h_truthy c then freeze c st else st)"

text \<open>\<open>v ?? {}\<close>: the literal is a new object.\<close>

definition nullish_or_empty :: "hval \<Rightarrow> store \<Rightarrow> hval \<times> store" where
  "nullish_or_empty v st =
     (if v = HUndefined \<or> v = HNull then new_cell [] False st else (v, st))"

text \<open>
  \<open>merge\<close>, line 39. The arguments of \<open>mergeDeep\<close> are evaluated from left to right:
  the literal \<open>{}\<close> first.
\<close>

definition store_merge ::
  "('s \<Rightarrow> 's \<Rightarrow> 's) \<Rightarrow> 's stored_ZodFig \<Rightarrow> 's stored_ZodFig \<Rightarrow> store \<Rightarrow>
   (error + 's stored_ZodFig) \<times> store" where
  "store_merge zod_merge this merging st =
     (case new_cell [] False st of
        (orig, st0) \<Rightarrow>
          (case nullish_or_empty (stored_config this) st0 of
             (c1, st1) \<Rightarrow>
               (case nullish_or_empty (stored_config merging) st1 of
                  (c2, st2) \<Rightarrow>
                    (case store_mergeDeep orig [c1, c2] st2 of
                       (Inl e, st3) \<Rightarrow> (Inl e, st3)
                     | (Inr r, st3) \<Rightarrow>
                         (case construct (zod_merge (stored_schema this) (stored_schema merging))
                                 r st3 of
                            (u, st4) \<Rightarrow> (Inr u, st4))))))"

text \<open>\<open>override\<close>, line 49.\<close>

definition store_override ::
  "'s stored_ZodFig \<Rightarrow> hval \<Rightarrow> store \<Rightarrow> (error + 's stored_ZodFig) \<times> store" where
  "store_override this cfg st =
     (case new_cell [] False st of
        (orig, st0) \<Rightarrow>
          (case store_mergeDeep orig [stored_config this, cfg] st0 of
             (Inl e, st1) \<Rightarrow> (Inl e, st1)
           | (Inr r, st1) \<Rightarrow>
               (case construct (stored_schema this) r st1 of (u, st2) \<Rightarrow> (Inr u, st2))))"

text \<open>
  A caller's function, as far as the store sees it: the writes it performs, in order
  (each with the mode of the code it stands in), and how it settles. A write that
  raises ends it with that error.
\<close>

datatype stmt = Assign bool nat string hval | Delete bool nat string

fun exec_stmts :: "stmt list \<Rightarrow> store \<Rightarrow> (error + unit) \<times> store" where
  "exec_stmts [] st = (Inr (), st)"
| "exec_stmts (Assign strict a key v # rest) st =
     (case assign strict a key v st of
        Inl e \<Rightarrow> (Inl e, st)
      | Inr st' \<Rightarrow> exec_stmts rest st')"
| "exec_stmts (Delete strict a key # rest) st =
     (case delete_prop strict a key st of
        Inl e \<Rightarrow> (Inl e, st)
      | Inr st' \<Rightarrow> exec_stmts rest st')"

type_synonym overrider = "hval \<Rightarrow> store \<Rightarrow> stmt list \<times> (error + jval)"

text \<open>
  \<open>await overrider(this._config)\<close>: the function is handed the reference held in
  \<open>_config\<close> itself; the value it resolves to is a new object.
\<close>

definition call_overrider :: "overrider \<Rightarrow> hval \<Rightarrow> store \<Rightarrow> (error + hval) \<times> store" where
  "call_overrider f cur st =
     (case f cur st of
        (stmts, outcome) \<Rightarrow>
          (case exec_stmts stmts st of
             (Inl e, st1) \<Rightarrow> (Inl e, st1)
           | (Inr _, st1) \<Rightarrow>
               (case outcome of
                  Inl e \<Rightarrow> (Inl e, st1)
                | Inr v \<Rightarrow> (case alloc_val v st1 of (r, st2) \<Rightarrow> (Inr r, st2)))))"

text \<open>
  \<open>overrideAync(overrider)\<close>, line 60:
  \<^verbatim>\<open>return this.override(await overrider(this._config));\<close>
\<close>

definition overrideAync ::
  "'s stored_ZodFig \<Rightarrow> overrider \<Rightarrow> store \<Rightarrow> (error + 's stored_ZodFig) \<times> store" where
  "overrideAync this f st =
     (case call_overrider f (stored_config this) st of
        (Inl e, st1) \<Rightarrow> (Inl e, st1)
      | (Inr cfg, st1) \<Rightarrow> store_override this cfg st1)"


section \<open>Vocabulary of the statements\<close>

text \<open>
  A data value and its fields: a structured value with the fields \<open>fs\<close>, or an absent
  one (\<open>undefined\<close> or \<open>null\<close>), which has no field.
\<close>

definition has_fields :: "jval \<Rightarrow> props \<Rightarrow> bool" where
  "has_fields d fs =
     ((\<exists>i. d = JObj i fs \<and> distinct_keys fs) \<or> ((d = JUndefined \<or> d = JNull) \<and> fs = []))"

text \<open>
  The data of a unit, as the statements speak of it: such a value, every field of which
  holds a value \<open>clone\<close> copies as clone-deep does.
\<close>

definition has_data :: "jval \<Rightarrow> props \<Rightarrow> bool" where
  "has_data d fs = (has_fields d fs \<and> list_all (\<lambda>p. clonable (snd p)) fs)"

text \<open>
  Fields that keep \<open>merge\<close> away from the built-in functions: a field named like a
  member of \<open>Object.prototype\<close> holds no object. \<open>plain_fields\<close> asks it of the
  fields of one object, \<open>plain\<close> of an object and of every object nested in it
  through fields.
\<close>

definition plain_fields :: "props \<Rightarrow> bool" where
  "plain_fields fs = list_all (\<lambda>p. fst p \<notin> set Object_prototype \<or> \<not> isObject (snd p)) fs"

fun plain :: "jval \<Rightarrow> bool" where
  "plain (JObj _ fs) =
     list_all (\<lambda>p. (fst p \<notin> set Object_prototype \<or> \<not> isObject (snd p)) \<and> plain (snd p)) fs"
| "plain v = True"

text \<open>
  A value in which no object or array is known by a reference: every object in it is
  referenced from its one place only. Such a value is its own copy.
\<close>

definition unshared :: "jval \<Rightarrow> bool" where
  "unshared v = (clone v = v)"

text \<open>
  The field \<open>k\<close> of a merge of two data values, from the field of each side
  (\<open>None\<close>: the side has no such field): a copy of one side's value, or what the loop
  body makes of a copy of the first and the second.
\<close>

definition field_rule :: "jval option \<Rightarrow> jval option \<Rightarrow> (error + jval) option" where
  "field_rule x y =
     (case y of
        None \<Rightarrow> map_option (\<lambda>v. Inr (clone v)) x
      | Some oldVal \<Rightarrow>
          Some (case x of
                  None \<Rightarrow> Inr (clone oldVal)
                | Some newVal \<Rightarrow> merged_value (Own (clone newVal)) oldVal))"

text \<open>
  The property \<open>k\<close> of what \<open>merge(target, obj)\<close> returns, from \<open>target\<close> and
  \<open>obj\<close>: that of \<open>target\<close>, unless \<open>obj\<close> has one the loop does not skip.
\<close>

definition loop_rule :: "props \<Rightarrow> props \<Rightarrow> string \<Rightarrow> (error + jval) option" where
  "loop_rule target obj k =
     (case map_of obj k of
        None \<Rightarrow> map_option Inr (map_of target k)
      | Some oldVal \<Rightarrow>
          if isValidKey k then Some (merged_value (get_prop target k) oldVal)
          else map_option Inr (map_of target k))"

text \<open>
  What \<open>merge\<close> makes of an empty target and plain fields: a copy of each field the
  loop does not skip.
\<close>

definition copied_fields :: "props \<Rightarrow> props" where
  "copied_fields fs =
     map (\<lambda>p. (fst p, clone (snd p))) (filter (\<lambda>p. isValidKey (fst p)) fs)"

definition ident_of :: "jval \<Rightarrow> ident" where
  "ident_of v = (case v of JObj i _ \<Rightarrow> i | JArr i _ \<Rightarrow> i | _ \<Rightarrow> None)"

text \<open>
  What holds of every state the command reaches in watch mode: no timer is queued, at
  most one \<open>run\<close> is waited for, and one is waited for only while \<open>going\<close> is set,
  for a file that exists, with \<open>isWatching\<close> set.
\<close>

definition watch_inv :: "'s host \<Rightarrow> cli_state \<Rightarrow> bool" where
  "watch_inv h s =
     (timers s = 0 \<and> length (in_flight s) \<le> 1 \<and>
      (in_flight s \<noteq> [] \<longrightarrow>
         going s \<and> isWatching (globals s) \<and> list_all (existsSync h) (in_flight s)))"

text \<open>
  In watch mode, once the run of an existing file has been started, \<open>going\<close> stays
  set and no other run is started.
\<close>

definition first_run_only :: "string \<Rightarrow> cli_state \<Rightarrow> bool" where
  "first_run_only f s = (going s \<and> started s = [Some f])"

text \<open>
  The store \<open>st'\<close> comes from \<open>st\<close> by adding cells at its end; and by that and by
  writes to the properties of cells from the address \<open>n\<close> on.
\<close>

definition extends :: "store \<Rightarrow> store \<Rightarrow> bool" where
  "extends st st' = (\<exists>new. st' = st @ new)"

definition unchanged_below :: "nat \<Rightarrow> store \<Rightarrow> store \<Rightarrow> bool" where
  "unchanged_below n st st' =
     (length st \<le> length st' \<and> (\<forall>a<length st. a < n \<longrightarrow> st' ! a = st ! a) \<and>
      (\<forall>a<length st. is_array (st' ! a) = is_array (st ! a)))"

text \<open>
  The objects \<open>merge\<close> writes into are those \<open>mergeDeep\<close> created itself, the cells
  from the address \<open>n\<close> on: every object among them refers, through its properties,
  only to primitives, to arrays, and to objects among them.
\<close>

definition points_new :: "nat \<Rightarrow> store \<Rightarrow> hval \<Rightarrow> bool" where
  "points_new n st v =
     (case v of HRef r \<Rightarrow> r < length st \<and> (n \<le> r \<or> is_array (st ! r)) | _ \<Rightarrow> True)"

definition new_objects_closed :: "nat \<Rightarrow> store \<Rightarrow> bool" where
  "new_objects_closed n st =
     (\<forall>a<length st. n \<le> a \<and> \<not> is_array (st ! a) \<longrightarrow>
        list_all (\<lambda>p. points_new n st (snd p)) (props_of (st ! a)))"

text \<open>The errors merge-deep can end with.\<close>

definition merge_error :: "error \<Rightarrow> bool" where
  "merge_error e = (e = RangeError \<or> e = TypeError \<or> e = Unmodelled)"

section \<open>Sample inputs\<close>

text \<open>
  A host whose file exists and exports a factory, whose schema rejects every value
  with one issue, and a world to start from.
\<close>

definition rejecting_host :: "unit host" where
  "rejecting_host =
     \<lparr>existsSync = (\<lambda>f. f = ''zodfig.ts''),
      require = (\<lambda>f. Inr (DefaultFunction
                  (Inr (Returned_ZodFig (new_ZodFig () (JObj None [(''port'', JStr ''x'')])))))),
      parse = (\<lambda>s d. Inl (ZodError [([''port''], ''Expected number'')])),
      write_files = (\<lambda>v. Inr ())\<rparr>"

definition quiet_world :: world where
  "quiet_world = \<lparr>isWatching = False, console = [], required = [], written = []\<rparr>"

text \<open>
  Hosts that differ from it in one place: the schema accepts the data; the file cannot
  be loaded; it exports nothing to destructure; its default export is no function; the
  factory throws a \<open>KnownError\<close>; the factory returns no \<open>ZodFig\<close>; the schema
  accepts the data and the writer fails.
\<close>

definition working_host :: "unit host" where
  "working_host = rejecting_host\<lparr>parse := (\<lambda>s d. Inr d)\<rparr>"

definition unloadable_host :: "unit host" where
  "unloadable_host = rejecting_host\<lparr>require := (\<lambda>f. Inl (OtherError ''SyntaxError''))\<rparr>"

definition no_exports_host :: "unit host" where
  "no_exports_host = rejecting_host\<lparr>require := (\<lambda>f. Inr NoExports)\<rparr>"

definition no_function_host :: "unit host" where
  "no_function_host = rejecting_host\<lparr>require := (\<lambda>f. Inr DefaultNotFunction)\<rparr>"

definition throwing_factory_host :: "unit host" where
  "throwing_factory_host =
     rejecting_host\<lparr>require := (\<lambda>f. Inr (DefaultFunction (Inl (KnownError ''no env''))))\<rparr>"

definition no_zodfig_host :: "unit host" where
  "no_zodfig_host =
     rejecting_host\<lparr>require := (\<lambda>f. Inr (DefaultFunction (Inr Returned_other)))\<rparr>"

definition unwritable_host :: "unit host" where
  "unwritable_host =
     rejecting_host\<lparr>parse := (\<lambda>s d. Inr d), write_files := (\<lambda>v. Inl (OtherError ''EACCES''))\<rparr>"

text \<open>The command line \<open>--watch\<close>, with no command.\<close>

definition watching :: options where
  "watching = \<lparr>command = None, watch = True, verbose = False\<rparr>"

text \<open>
  A store holding the data \<open>{db: {port: 1}}\<close>: the object at address 0 refers to the
  nested object at address 1. Nothing is frozen yet.
\<close>

definition nested_store :: store where
  "nested_store =
     [\<lparr>props_of = [(''db'', HRef 1)], is_array = False, frozen = False\<rparr>,
      \<lparr>props_of = [(''port'', HNum 1)], is_array = False, frozen = False\<rparr>]"

text \<open>
  A store holding two data values. \<open>{db: {port: 1}, tags: ['a']}\<close> is the object at
  address 0, frozen as the data of a unit. \<open>{db: {host: 'h'}, tags: [o, 'b', o]}\<close> is
  the object at address 3, where \<open>o\<close> is the one object \<open>{x: 1}\<close> at address 6.
\<close>

definition two_data_store :: store where
  "two_data_store =
     [\<lparr>props_of = [(''db'', HRef 1), (''tags'', HRef 2)], is_array = False, frozen = True\<rparr>,
      \<lparr>props_of = [(''port'', HNum 1)], is_array = False, frozen = False\<rparr>,
      \<lparr>props_of = [(''0'', HStr ''a'')], is_array = True, frozen = False\<rparr>,
      \<lparr>props_of = [(''db'', HRef 4), (''tags'', HRef 5)], is_array = False, frozen = False\<rparr>,
      \<lparr>props_of = [(''host'', HStr ''h'')], is_array = False, frozen = False\<rparr>,
      \<lparr>props_of = [(''0'', HRef 6), (''1'', HStr ''b''), (''2'', HRef 6)],
       is_array = True, frozen = False\<rparr>,
      \<lparr>props_of = [(''x'', HNum 1)], is_array = False, frozen = False\<rparr>]"

text \<open>
  \<^verbatim>\<open>async (cur) => { cur.db.port = 99; throw new Error('boom'); }\<close>
\<close>

definition failing_overrider :: overrider where
  "failing_overrider cur st =
     (case cur of
        HRef a \<Rightarrow>
          (case map_of (props_of (st ! a)) ''db'' of
             Some (HRef d) \<Rightarrow> ([Assign True d ''port'' (HNum 99)], Inl (OtherError ''boom''))
           | _ \<Rightarrow> ([], Inl TypeError))
      | _ \<Rightarrow> ([], Inl TypeError))"

text \<open>An overrider that validates by itself and throws zod's error.\<close>

definition validating_overrider :: overrider where
  "validating_overrider cur st = ([], Inl (ZodError [([''port''], ''Expected number'')]))"

text \<open>
  \<^verbatim>\<open>async (cur) => ({db: {port: 2}})\<close>
\<close>

definition returning_overrider :: overrider where
  "returning_overrider cur st =
     ([], Inr (JObj None [(''db'', JObj None [(''port'', JNum 2)])]))"


section \<open>Properties of merge\<close>

lemma merge_step:
  "merge target ((key, oldVal) # rest) =
     (if \<not> isValidKey key then merge target rest
      else case merged_value (get_prop target key) oldVal of
             Inl e \<Rightarrow> Inl e
           | Inr v \<Rightarrow> merge (set_prop target key v) rest)"
  by (simp add: merged_value_def split: found.splits jval.splits sum.splits)

declare merge.simps(2) [simp del]

lemma map_of_set_prop:
  "map_of (set_prop fs k v) k' = (if k' = k then Some v else map_of fs k')"
  by (induction fs) auto

lemma get_prop_set_prop:
  "get_prop (set_prop fs k v) k' = (if k' = k then Own v else get_prop fs k')"
  by (simp add: get_prop_def map_of_set_prop)

lemma keys_set_prop:
  "fst ` set (set_prop fs k v) = insert k (fst ` set fs)"
  by (induction fs k v rule: set_prop.induct) (simp_all add: insert_commute)

lemma distinct_set_prop:
  "distinct (map fst fs) \<Longrightarrow> distinct (map fst (set_prop fs k v))"
  by (induction fs) (auto simp: keys_set_prop)

lemma set_prop_fresh:
  "k \<notin> set (map fst fs) \<Longrightarrow> set_prop fs k v = fs @ [(k, v)]"
  by (induction fs) auto

lemma key_list_set_prop:
  "map fst (set_prop fs k v) = (if k \<in> set (map fst fs) then map fst fs else map fst fs @ [k])"
  by (induction fs k v rule: set_prop.induct) force+

text \<open>
  The loop treats the keys of \<open>obj\<close> one by one, and a key only once: the property
  \<open>k\<close> of the result comes from the property \<open>k\<close> of \<open>target\<close> and of \<open>obj\<close>.
\<close>

lemma merge_lookup:
  "distinct (map fst ob) \<Longrightarrow> merge t ob = Inr r \<Longrightarrow>
   map_option Inr (map_of r k) = loop_rule t ob k"
proof (induction ob arbitrary: t)
  case Nil
  then show ?case by (simp add: loop_rule_def)
next
  case (Cons p ob)
  obtain key oldVal where p: "p = (key, oldVal)" by (cases p)
  from Cons.prems p have nk: "key \<notin> set (map fst ob)" and d: "distinct (map fst ob)"
    by auto
  from nk have none: "map_of ob key = None"
    by (simp add: map_of_eq_None_iff)
  show ?case
  proof (cases "isValidKey key")
    case False
    with Cons.prems(2) p have "merge t ob = Inr r" by (simp add: merge_step)
    from Cons.IH [OF d this] False none show ?thesis
      unfolding p by (cases "k = key") (auto simp: loop_rule_def split: option.splits)
  next
    case True
    with Cons.prems(2) p obtain v where v: "merged_value (get_prop t key) oldVal = Inr v"
      and m: "merge (set_prop t key v) ob = Inr r"
      by (auto simp: merge_step split: sum.splits)
    from Cons.IH [OF d m] True none v show ?thesis
      unfolding p
      by (cases "k = key")
        (auto simp: loop_rule_def map_of_set_prop get_prop_set_prop split: option.splits)
  qed
qed

lemma keys_merge:
  "merge t ob = Inr r \<Longrightarrow>
   fst ` set r = fst ` set t \<union> {k \<in> fst ` set ob. isValidKey k}"
proof (induction ob arbitrary: t)
  case Nil
  then show ?case by simp
next
  case (Cons p ob)
  obtain key oldVal where p: "p = (key, oldVal)" by (cases p)
  show ?case
  proof (cases "isValidKey key")
    case False
    with Cons.prems p have "merge t ob = Inr r" by (simp add: merge_step)
    from Cons.IH [OF this] False show ?thesis unfolding p by auto
  next
    case True
    with Cons.prems p obtain v where m: "merge (set_prop t key v) ob = Inr r"
      by (auto simp: merge_step split: sum.splits)
    from Cons.IH [OF m] True show ?thesis unfolding p by (auto simp: keys_set_prop)
  qed
qed

lemma distinct_merge:
  "distinct (map fst t) \<Longrightarrow> merge t ob = Inr r \<Longrightarrow> distinct (map fst r)"
proof (induction ob arbitrary: t)
  case Nil
  then show ?case by simp
next
  case (Cons p ob)
  obtain key oldVal where p: "p = (key, oldVal)" by (cases p)
  show ?case
  proof (cases "isValidKey key")
    case False
    with Cons.prems p have "merge t ob = Inr r" by (simp add: merge_step)
    from Cons.IH [OF Cons.prems(1) this] show ?thesis .
  next
    case True
    with Cons.prems p obtain v where m: "merge (set_prop t key v) ob = Inr r"
      by (auto simp: merge_step split: sum.splits)
    from Cons.IH [OF distinct_set_prop [OF Cons.prems(1)] m] show ?thesis .
  qed
qed

text \<open>The order of the keys: those of \<open>target\<close>, then the new ones in the order met.\<close>

lemma key_list_merge:
  "distinct (map fst ob) \<Longrightarrow> merge t ob = Inr r \<Longrightarrow>
   map fst r = map fst t @ filter (\<lambda>k. isValidKey k \<and> k \<notin> set (map fst t)) (map fst ob)"
proof (induction ob arbitrary: t)
  case Nil
  then show ?case by simp
next
  case (Cons p ob)
  obtain key oldVal where p: "p = (key, oldVal)" by (cases p)
  from Cons.prems p have nk: "key \<notin> set (map fst ob)" and d: "distinct (map fst ob)"
    by auto
  have same: "filter (\<lambda>k. isValidKey k \<and> k \<noteq> key \<and> k \<notin> S) (map fst ob) =
              filter (\<lambda>k. isValidKey k \<and> k \<notin> S) (map fst ob)" for S
    using nk by (intro filter_cong) auto
  show ?case
  proof (cases "isValidKey key")
    case False
    with Cons.prems p have "merge t ob = Inr r" by (simp add: merge_step)
    from Cons.IH [OF d this] False show ?thesis unfolding p by simp
  next
    case True
    with Cons.prems p obtain v where m: "merge (set_prop t key v) ob = Inr r"
      by (auto simp: merge_step split: sum.splits)
    from Cons.IH [OF d m] True show ?thesis unfolding p
      by (simp add: key_list_set_prop same)
  qed
qed

text \<open>
  Merging plain fields never reaches a built-in function: the call returns.
\<close>

lemma merged_value_plain:
  assumes "k \<notin> set Object_prototype \<or> \<not> isObject oldVal"
    and "\<And>i t j ob. map_of target k = Some (JObj i t) \<Longrightarrow> oldVal = JObj j ob \<Longrightarrow>
           \<exists>t'. merge t ob = Inr t'"
  shows "\<exists>v. merged_value (get_prop target k) oldVal = Inr v"
proof (cases "map_of target k")
  case None
  with assms(1) show ?thesis
    by (cases oldVal) (auto simp: merged_value_def get_prop_def isObject_def)
next
  case (Some x)
  show ?thesis
  proof (cases x)
    case (JObj i t)
    show ?thesis
    proof (cases oldVal)
      case (JObj j ob)
      from assms(2) [OF _ this] Some \<open>x = JObj i t\<close> obtain t' where "merge t ob = Inr t'"
        by auto
      with Some \<open>x = JObj i t\<close> JObj show ?thesis
        by (simp add: merged_value_def get_prop_def)
    qed (use Some \<open>x = JObj i t\<close> in \<open>simp_all add: merged_value_def get_prop_def\<close>)
  qed (use Some in \<open>simp_all add: merged_value_def get_prop_def\<close>)
qed

lemma merge_returns:
  "plain (JObj j ob) \<Longrightarrow> \<exists>r. merge t ob = Inr r"
proof (induction ob arbitrary: t j rule: measure_induct_rule [where f = "size_list (size_prod (\<lambda>x. 0) size)"])
  case (less ob)
  show ?case
  proof (cases ob)
    case Nil
    then show ?thesis by simp
  next
    case (Cons p rest)
    obtain key oldVal where p: "p = (key, oldVal)" by (cases p)
    from less.prems Cons p have c: "key \<notin> set Object_prototype \<or> \<not> isObject oldVal"
      and po: "plain oldVal" and pr: "plain (JObj j rest)"
      by auto
    have rest: "\<exists>r. merge t' rest = Inr r" for t'
      using less.IH [of rest j t'] pr Cons by simp
    show ?thesis
    proof (cases "isValidKey key")
      case False
      with rest [of t] Cons p show ?thesis by (simp add: merge_step)
    next
      case True
      have "\<exists>v. merged_value (get_prop t key) oldVal = Inr v"
      proof (rule merged_value_plain [OF c])
        fix i t0 j0 ob0
        assume "oldVal = JObj j0 ob0"
        with po less.IH [of ob0 j0 t0] Cons p show "\<exists>t'. merge t0 ob0 = Inr t'"
          by simp
      qed
      then obtain v where "merged_value (get_prop t key) oldVal = Inr v" ..
      with rest [of "set_prop t key v"] True Cons p show ?thesis
        by (simp add: merge_step)
    qed
  qed
qed

section \<open>merge and override on data\<close>

lemma map_of_copied_fields:
  "map_of (copied_fields fs) k = (if isValidKey k then map_option clone (map_of fs k) else None)"
  unfolding copied_fields_def by (induction fs) auto

lemma key_list_copied_fields:
  "map fst (copied_fields fs) = filter isValidKey (map fst fs)"
  unfolding copied_fields_def by (induction fs) auto

lemma copied_fields_Cons:
  "copied_fields ((k, v) # fs) =
     (if isValidKey k then (k, clone v) # copied_fields fs else copied_fields fs)"
  by (simp add: copied_fields_def)

text \<open>Merging into an object that has none of the keys adds a copy of each property.\<close>

lemma merge_new_keys:
  "distinct (map fst ob) \<Longrightarrow> set (map fst t) \<inter> set (map fst ob) = {} \<Longrightarrow>
   plain_fields ob \<Longrightarrow> merge t ob = Inr (t @ copied_fields ob)"
proof (induction ob arbitrary: t)
  case Nil
  then show ?case by (simp add: copied_fields_def)
next
  case (Cons p ob)
  obtain key oldVal where p: "p = (key, oldVal)" by (cases p)
  from Cons.prems p have fresh: "key \<notin> set (map fst t)" by auto
  then have none: "map_of t key = None"
    by (simp add: map_of_eq_None_iff)
  from Cons.prems(3) p have c: "key \<notin> set Object_prototype \<or> \<not> isObject oldVal"
    and pf: "plain_fields ob"
    by (simp_all add: plain_fields_def)
  from none c have mv: "merged_value (get_prop t key) oldVal = Inr (clone oldVal)"
    by (cases oldVal) (auto simp: merged_value_def get_prop_def isObject_def)
  show ?case
  proof (cases "isValidKey key")
    case False
    with Cons pf show ?thesis unfolding p by (auto simp: merge_step copied_fields_Cons)
  next
    case True
    have "merge (t @ [(key, clone oldVal)]) ob = Inr ((t @ [(key, clone oldVal)]) @ copied_fields ob)"
      using Cons.prems p pf by (intro Cons.IH) auto
    with True mv show ?thesis unfolding p
      by (simp add: merge_step set_prop_fresh [OF fresh] copied_fields_Cons)
  qed
qed

lemma merge_from_empty:
  "distinct (map fst fs) \<Longrightarrow> plain_fields fs \<Longrightarrow> merge [] fs = Inr (copied_fields fs)"
  using merge_new_keys [of fs "[]"] by simp

lemma has_fields_distinct: "has_fields d fs \<Longrightarrow> distinct (map fst fs)"
  by (auto simp: has_fields_def distinct_keys_def)

lemma has_data_fields: "has_data d fs \<Longrightarrow> has_fields d fs"
  by (simp add: has_data_def)

lemma has_fields_plain: "has_fields d fs \<Longrightarrow> plain d \<Longrightarrow> \<exists>j. plain (JObj j fs)"
  by (auto simp: has_fields_def)

text \<open>
  Both methods call \<open>mergeDeep\<close> on \<open>{}\<close> and the two data values: the first is
  copied into the empty target, without the three keys \<open>merge\<close> skips, and the second
  merged into that.
\<close>

lemma mergeDeep_of_data:
  assumes "has_fields da fa" and "has_fields db fb" and "plain_fields fa"
  shows "mergeDeep [] [nullish_or da (JObj None []), nullish_or db (JObj None [])] =
           map_sum id (JObj None) (merge (copied_fields fa) fb)"
    and "mergeDeep [] [da, db] = map_sum id (JObj None) (merge (copied_fields fa) fb)"
proof -
  have e: "copied_fields [] = []" by (simp add: copied_fields_def)
  have m: "merge [] fa = Inr (copied_fields fa)"
    by (rule merge_from_empty [OF has_fields_distinct [OF assms(1)] assms(3)])
  from assms(1,2) m e
  show "mergeDeep [] [nullish_or da (JObj None []), nullish_or db (JObj None [])] =
           map_sum id (JObj None) (merge (copied_fields fa) fb)"
    by (cases "merge (copied_fields fa) fb")
      (auto simp: has_fields_def mergeDeep_def nullish_or_def isObject_def isArray_def
        own_props_def)
  from assms(1,2) m e
  show "mergeDeep [] [da, db] = map_sum id (JObj None) (merge (copied_fields fa) fb)"
    by (cases "merge (copied_fields fa) fb")
      (auto simp: has_fields_def mergeDeep_def isObject_def isArray_def own_props_def)
qed

lemma get_prop_copied_fields:
  "get_prop (copied_fields fa) k =
     (case map_of fa k of
        Some x \<Rightarrow> if isValidKey k then Own (clone x)
                  else if k \<in> set Object_prototype then Inherited else Missing
      | None \<Rightarrow> if k \<in> set Object_prototype then Inherited else Missing)"
  by (simp add: get_prop_def map_of_copied_fields split: option.splits)

lemma merged_value_not_own:
  "merged_value newVal y = Inr v \<Longrightarrow> newVal = Missing \<or> newVal = Inherited \<Longrightarrow> v = clone y"
  by (cases y) (auto simp: merged_value_def)

lemma merged_fields_lookup:
  assumes "distinct (map fst fb)" and "merge (copied_fields fa) fb = Inr fr"
  shows "map_option Inr (map_of fr k) =
           (if isValidKey k then field_rule (map_of fa k) (map_of fb k) else None)"
proof -
  note l = merge_lookup [OF assms, of k]
  show ?thesis
  proof (cases "map_of fb k")
    case None
    with l show ?thesis
      by (simp add: loop_rule_def field_rule_def map_of_copied_fields option.map_comp comp_def)
  next
    case (Some y)
    show ?thesis
    proof (cases "isValidKey k")
      case False
      with l Some show ?thesis by (simp add: loop_rule_def map_of_copied_fields)
    next
      case True
      show ?thesis
      proof (cases "map_of fa k")
        case (Some x)
        with l True \<open>map_of fb k = Some y\<close> show ?thesis
          by (simp add: loop_rule_def field_rule_def get_prop_copied_fields)
      next
        case None
        from l True \<open>map_of fb k = Some y\<close> obtain v where
          v: "merged_value (get_prop (copied_fields fa) k) y = Inr v"
          by (cases "map_of fr k") (auto simp: loop_rule_def dest: sym)
        from None have "get_prop (copied_fields fa) k = Missing \<or>
            get_prop (copied_fields fa) k = Inherited"
          by (simp add: get_prop_copied_fields)
        from merged_value_not_own [OF v this] v l True None \<open>map_of fb k = Some y\<close>
        show ?thesis by (simp add: loop_rule_def field_rule_def)
      qed
    qed
  qed
qed

lemma merged_fields_distinct:
  "distinct (map fst fa) \<Longrightarrow> merge (copied_fields fa) fb = Inr fr \<Longrightarrow> distinct (map fst fr)"
  by (erule distinct_merge [rotated]) (simp add: key_list_copied_fields)

lemma merged_value_cases:
  "merged_value (Own x) y =
     (if isObject x \<and> isObject y
      then (case merge (own_props x) (own_props y) of
              Inl e \<Rightarrow> Inl e
            | Inr t' \<Rightarrow> Inr (JObj (ident_of x) t'))
      else if isArray x then Inr (JArr None (arr_union [] [x, y]))
      else Inr (clone y))"
  by (cases x; cases y)
    (simp_all add: merged_value_def isObject_def isArray_def own_props_def ident_of_def
      split: sum.splits)















text \<open>
  C4, as stated: for every unit, \<open>override\<close> with the empty partial value returns data
  deep-equal to the unit's. A unit built without data has the data \<open>undefined\<close>; its
  override has the data \<open>{}\<close>.
\<close>

theorem override_empty_identity_counterexample:
  "override (new_ZodFig () JUndefined) (JObj None []) = Inr (new_ZodFig () (JObj None []))"
  by (simp add: override_def new_ZodFig_def mergeDeep_def isObject_def isArray_def
      own_props_def)

lemma copied_fields_all_valid:
  "list_all (\<lambda>p. isValidKey (fst p)) fs \<Longrightarrow>
   copied_fields fs = map (\<lambda>p. (fst p, clone (snd p))) fs"
  unfolding copied_fields_def by (induction fs) auto

text \<open>
  C4, amended: for every unit \<open>u\<close>, what \<open>u.override({})\<close> returns has the schema of
  \<open>u\<close>. When the data of \<open>u\<close> is a structured value made of primitives, arrays and
  plain objects (\<open>has_data\<close>), none of whose top-level fields named like a member of
  \<open>Object.prototype\<close> holds an object, the call returns a unit whose data is a copy of
  that value without its top-level fields named \<open>__proto__\<close>, \<open>constructor\<close> and
  \<open>prototype\<close>: a copy of the data of \<open>u\<close>, deep-equal to it, when it has no such
  field. When the data of \<open>u\<close> is absent, the data of the result is the empty
  structured value.
\<close>

theorem override_empty:
  "(\<forall>u'. override u (JObj None []) = Inr u' \<longrightarrow> schema u' = schema u) \<and>
   (\<forall>i fs. config u = JObj i fs \<and> has_data (config u) fs \<and> plain_fields fs \<longrightarrow>
      override u (JObj None []) = Inr (new_ZodFig (schema u) (JObj None (copied_fields fs)))) \<and>
   (\<forall>i fs. config u = JObj i fs \<and> has_data (config u) fs \<and> plain_fields fs \<and>
      list_all (\<lambda>p. isValidKey (fst p)) fs \<longrightarrow>
      override u (JObj None []) = Inr (new_ZodFig (schema u) (clone (config u)))) \<and>
   (config u = JUndefined \<or> config u = JNull \<longrightarrow>
      override u (JObj None []) = Inr (new_ZodFig (schema u) (JObj None [])))"
proof (intro conjI allI impI)
  fix u'
  assume "override u (JObj None []) = Inr u'"
  then show "schema u' = schema u"
    by (auto simp: override_def new_ZodFig_def split: sum.splits)
next
  fix i fs
  assume h: "config u = JObj i fs \<and> has_data (config u) fs \<and> plain_fields fs"
  then have "distinct_keys fs" by (auto simp: has_data_def has_fields_def)
  with h show "override u (JObj None []) = Inr (new_ZodFig (schema u) (JObj None (copied_fields fs)))"
    by (simp add: override_def mergeDeep_def isObject_def isArray_def
        own_props_def distinct_keys_def merge_from_empty)
next
  fix i fs
  assume h: "config u = JObj i fs \<and> has_data (config u) fs \<and> plain_fields fs \<and>
      list_all (\<lambda>p. isValidKey (fst p)) fs"
  then have "distinct_keys fs" by (auto simp: has_data_def has_fields_def)
  with h show "override u (JObj None []) = Inr (new_ZodFig (schema u) (clone (config u)))"
    by (simp add: override_def mergeDeep_def isObject_def isArray_def
        own_props_def distinct_keys_def merge_from_empty copied_fields_all_valid)
next
  assume "config u = JUndefined \<or> config u = JNull"
  then show "override u (JObj None []) = Inr (new_ZodFig (schema u) (JObj None []))"
    by (auto simp: override_def mergeDeep_def isObject_def isArray_def own_props_def)
qed

theorem override_empty_witness:
  "override (new_ZodFig (0::nat)
      (JObj (Some 7) [(''x'', JNum 1), (''y'', JArr (Some 8) [JNum 2, JNum 2])])) (JObj None []) =
     Inr (new_ZodFig 0 (JObj None [(''x'', JNum 1), (''y'', JArr None [JNum 2, JNum 2])])) \<and>
   override (new_ZodFig (0::nat) JNull) (JObj None []) = Inr (new_ZodFig 0 (JObj None []))"
proof -
  let ?fs = "[(''x'', JNum 1), (''y'', JArr (Some 8) [JNum 2, JNum 2])]"
  let ?u = "new_ZodFig (0::nat) (JObj (Some 7) ?fs)"
  have h: "config ?u = JObj (Some 7) ?fs \<and> has_data (config ?u) ?fs \<and> plain_fields ?fs \<and>
      list_all (\<lambda>p. isValidKey (fst p)) ?fs"
    by (simp add: new_ZodFig_def has_data_def has_fields_def distinct_keys_def plain_fields_def
        isValidKey_def Object_prototype_def)
  have n: "config (new_ZodFig (0::nat) JNull) = JUndefined \<or>
      config (new_ZodFig (0::nat) JNull) = JNull"
    by (simp add: new_ZodFig_def)
  note t1 = override_empty [of ?u, THEN conjunct2, THEN conjunct2, THEN conjunct1,
      rule_format, OF h]
  note t2 = override_empty [of "new_ZodFig (0::nat) JNull", THEN conjunct2, THEN conjunct2,
      THEN conjunct2, rule_format, OF n]
  from t1 t2 show ?thesis by (simp add: new_ZodFig_def)
qed

section \<open>Copies, shared references and plain fields under merge\<close>

lemma clone_idem: "clone (clone v) = clone v"
  by (induction v) (auto simp: map_idI)

lemma unshared_clone: "unshared (clone v)"
  by (simp add: unshared_def clone_idem)

lemma unshared_JObj:
  "unshared (JObj i fs) \<longleftrightarrow> i = None \<and> list_all (\<lambda>p. unshared (snd p)) fs"
proof -
  have "map (\<lambda>p. (fst p, clone (snd p))) fs = fs \<longleftrightarrow> (\<forall>p\<in>set fs. clone (snd p) = snd p)"
    by (induction fs) auto
  then show ?thesis by (auto simp: unshared_def list_all_iff)
qed

lemma unshared_JArr:
  "unshared (JArr i xs) \<longleftrightarrow> i = None \<and> list_all unshared xs"
proof -
  have "map clone xs = xs \<longleftrightarrow> (\<forall>x\<in>set xs. clone x = x)"
    by (induction xs) auto
  then show ?thesis by (auto simp: unshared_def list_all_iff)
qed

lemma push_new_unshared:
  "list_all unshared init \<Longrightarrow> list_all unshared xs \<Longrightarrow> list_all unshared (push_new init xs)"
  by (induction xs arbitrary: init) auto

lemma list_all_set_prop:
  "list_all P fs \<Longrightarrow> P (k, v) \<Longrightarrow> list_all P (set_prop fs k v)"
  by (induction fs k v rule: set_prop.induct) auto

lemma list_all_map_of:
  "list_all P fs \<Longrightarrow> map_of fs k = Some v \<Longrightarrow> P (k, v)"
  by (auto simp: list_all_iff dest: map_of_SomeD)

lemma isObject_clone: "isObject (clone v) = isObject v"
  by (cases v) (simp_all add: isObject_def)

lemma plain_clone: "plain v \<Longrightarrow> plain (clone v)"
  by (induction v) (auto simp: list_all_iff isObject_clone)

lemma copied_fields_unshared:
  "list_all (\<lambda>p. isValidKey (fst p) \<and> unshared (snd p)) fs \<Longrightarrow> copied_fields fs = fs"
  by (induction fs) (auto simp: copied_fields_def unshared_def)


lemma arr_union_unshared:
  assumes "unshared x" and "unshared y"
  shows "unshared (JArr None (arr_union [] [x, y]))"
proof -
  have e: "list_all unshared (case v of JArr _ xs \<Rightarrow> xs | _ \<Rightarrow> [v])" if "unshared v" for v
    using that by (cases v) (simp_all add: unshared_JArr)
  show ?thesis
    using e [OF assms(1)] e [OF assms(2)]
    by (simp add: unshared_JArr push_new_unshared)
qed

lemma merge_unshared:
  "list_all (\<lambda>p. unshared (snd p)) t \<Longrightarrow> list_all (\<lambda>p. unshared (snd p)) ob \<Longrightarrow>
   merge t ob = Inr r \<Longrightarrow> list_all (\<lambda>p. unshared (snd p)) r"
proof (induction ob arbitrary: t r rule: measure_induct_rule [where f = "size_list (size_prod (\<lambda>x. 0) size)"])
  case (less ob)
  show ?case
  proof (cases ob)
    case Nil
    with less.prems show ?thesis by simp
  next
    case (Cons p rest)
    obtain key oldVal where p: "p = (key, oldVal)" by (cases p)
    from less.prems(2) Cons p have uo: "unshared oldVal"
      and ur: "list_all (\<lambda>p. unshared (snd p)) rest" by auto
    have rest: "list_all (\<lambda>p. unshared (snd p)) r"
      if "list_all (\<lambda>p. unshared (snd p)) t'" and "merge t' rest = Inr r" for t'
      using less.IH [of rest t' r] that ur Cons by simp
    show ?thesis
    proof (cases "isValidKey key")
      case False
      with less.prems(3) Cons p have "merge t rest = Inr r" by (simp add: merge_step)
      with less.prems(1) show ?thesis by (rule rest)
    next
      case True
      with less.prems(3) Cons p obtain v where
        v: "merged_value (get_prop t key) oldVal = Inr v"
        and m: "merge (set_prop t key v) rest = Inr r"
        by (auto simp: merge_step split: sum.splits)
      have "unshared v"
      proof (cases "map_of t key")
        case None
        with v have "v = clone oldVal"
          by (intro merged_value_not_own [OF v]) (simp add: get_prop_def)
        then show ?thesis by (simp add: unshared_clone)
      next
        case (Some x)
        with less.prems(1) have ux: "unshared x"
          by (auto dest: list_all_map_of)
        from Some have g: "get_prop t key = Own x" by (simp add: get_prop_def)
        show ?thesis
        proof (cases "isObject x \<and> isObject oldVal")
          case True
          then obtain i t0 j ob0 where x: "x = JObj i t0" and o: "oldVal = JObj j ob0"
            by (cases x; cases oldVal) (auto simp: isObject_def)
          from v g x o obtain r0 where r0: "merge t0 ob0 = Inr r0" and vv: "v = JObj i r0"
            by (auto simp: merged_value_def split: sum.splits)
          from ux x have i: "i = None" and ut0: "list_all (\<lambda>p. unshared (snd p)) t0"
            by (simp_all add: unshared_JObj)
          from uo o have uob0: "list_all (\<lambda>p. unshared (snd p)) ob0"
            by (simp add: unshared_JObj)
          have "list_all (\<lambda>p. unshared (snd p)) r0"
            using less.IH [of ob0 t0 r0] ut0 uob0 r0 Cons p o by simp
          with vv i show ?thesis by (simp add: unshared_JObj)
        next
          case False
          with v g have "v = JArr None (arr_union [] [x, oldVal]) \<or> v = clone oldVal"
            by (auto simp: merged_value_cases split: if_splits)
          with ux uo show ?thesis
            using arr_union_unshared [of x oldVal] unshared_clone [of oldVal] by blast
        qed
      qed
      with less.prems(1) have "list_all (\<lambda>p. unshared (snd p)) (set_prop t key v)"
        by (intro list_all_set_prop) simp_all
      then show ?thesis using m by (rule rest)
    qed
  qed
qed

lemma merged_value_not_object:
  "merged_value newVal oldVal = Inr v \<Longrightarrow> \<not> isObject oldVal \<Longrightarrow> \<not> isObject v"
  by (cases newVal; cases oldVal)
    (auto simp: merged_value_def isObject_def split: jval.splits)

lemma merge_plain_fields:
  "plain_fields t \<Longrightarrow> plain_fields ob \<Longrightarrow> merge t ob = Inr r \<Longrightarrow> plain_fields r"
proof (induction ob arbitrary: t)
  case Nil
  then show ?case by simp
next
  case (Cons p ob)
  obtain key oldVal where p: "p = (key, oldVal)" by (cases p)
  from Cons.prems(2) p have c: "key \<notin> set Object_prototype \<or> \<not> isObject oldVal"
    and po: "plain_fields ob" by (simp_all add: plain_fields_def)
  show ?case
  proof (cases "isValidKey key")
    case False
    with Cons.prems p have "merge t ob = Inr r" by (simp add: merge_step)
    from Cons.IH [OF Cons.prems(1) po this] show ?thesis .
  next
    case True
    with Cons.prems(3) p obtain v where
      v: "merged_value (get_prop t key) oldVal = Inr v"
      and m: "merge (set_prop t key v) ob = Inr r"
      by (auto simp: merge_step split: sum.splits)
    from c merged_value_not_object [OF v]
    have "key \<notin> set Object_prototype \<or> \<not> isObject v" by auto
    with Cons.prems(1) have "plain_fields (set_prop t key v)"
      unfolding plain_fields_def by (intro list_all_set_prop) simp_all
    from Cons.IH [OF this po m] show ?thesis .
  qed
qed

lemma plain_JObj:
  "plain (JObj i fs) \<longleftrightarrow> plain_fields fs \<and> list_all (\<lambda>p. plain (snd p)) fs"
  by (auto simp: plain_fields_def list_all_iff)

lemma merge_plain_values:
  "list_all (\<lambda>p. plain (snd p)) t \<Longrightarrow> list_all (\<lambda>p. plain (snd p)) ob \<Longrightarrow>
   merge t ob = Inr r \<Longrightarrow> list_all (\<lambda>p. plain (snd p)) r"
proof (induction ob arbitrary: t r rule: measure_induct_rule [where f = "size_list (size_prod (\<lambda>x. 0) size)"])
  case (less ob)
  show ?case
  proof (cases ob)
    case Nil
    with less.prems show ?thesis by simp
  next
    case (Cons p rest)
    obtain key oldVal where p: "p = (key, oldVal)" by (cases p)
    from less.prems(2) Cons p have uo: "plain oldVal"
      and ur: "list_all (\<lambda>p. plain (snd p)) rest" by auto
    have rest: "list_all (\<lambda>p. plain (snd p)) r"
      if "list_all (\<lambda>p. plain (snd p)) t'" and "merge t' rest = Inr r" for t'
      using less.IH [of rest t' r] that ur Cons by simp
    show ?thesis
    proof (cases "isValidKey key")
      case False
      with less.prems(3) Cons p have "merge t rest = Inr r" by (simp add: merge_step)
      with less.prems(1) show ?thesis by (rule rest)
    next
      case True
      with less.prems(3) Cons p obtain v where
        v: "merged_value (get_prop t key) oldVal = Inr v"
        and m: "merge (set_prop t key v) rest = Inr r"
        by (auto simp: merge_step split: sum.splits)
      have "plain v"
      proof (cases "map_of t key")
        case None
        with v have "v = clone oldVal"
          by (intro merged_value_not_own [OF v]) (simp add: get_prop_def)
        with uo show ?thesis by (simp add: plain_clone)
      next
        case (Some x)
        with less.prems(1) have ux: "plain x"
          by (auto dest: list_all_map_of)
        from Some have g: "get_prop t key = Own x" by (simp add: get_prop_def)
        show ?thesis
        proof (cases "isObject x \<and> isObject oldVal")
          case True
          then obtain i t0 j ob0 where x: "x = JObj i t0" and o: "oldVal = JObj j ob0"
            by (cases x; cases oldVal) (auto simp: isObject_def)
          from v g x o obtain r0 where r0: "merge t0 ob0 = Inr r0" and vv: "v = JObj i r0"
            by (auto simp: merged_value_def split: sum.splits)
          from ux x have pt0: "plain_fields t0" and ut0: "list_all (\<lambda>p. plain (snd p)) t0"
            by (simp_all only: plain_JObj)
          from uo o have pob0: "plain_fields ob0" and uob0: "list_all (\<lambda>p. plain (snd p)) ob0"
            by (simp_all only: plain_JObj)
          have "list_all (\<lambda>p. plain (snd p)) r0"
            using less.IH [of ob0 t0 r0] ut0 uob0 r0 Cons p o by simp
          with vv merge_plain_fields [OF pt0 pob0 r0] show ?thesis by (simp only: plain_JObj)
        next
          case False
          with v g have "v = JArr None (arr_union [] [x, oldVal]) \<or> v = clone oldVal"
            by (auto simp: merged_value_cases split: if_splits)
          with uo show ?thesis
            by (auto simp: plain_clone)
        qed
      qed
      with less.prems(1) have "list_all (\<lambda>p. plain (snd p)) (set_prop t key v)"
        by (intro list_all_set_prop) simp_all
      then show ?thesis using m by (rule rest)
    qed
  qed
qed

lemma merge_plain:
  "plain (JObj i t) \<Longrightarrow> plain (JObj j ob) \<Longrightarrow> merge t ob = Inr r \<Longrightarrow> plain (JObj i' r)"
  by (simp only: plain_JObj) (blast intro: merge_plain_fields merge_plain_values)


section \<open>Associativity of merge\<close>

lemma props_eqI:
  "map fst xs = map fst ys \<Longrightarrow> distinct (map fst xs) \<Longrightarrow> map_of xs = map_of ys \<Longrightarrow> xs = ys"
proof (induction xs arbitrary: ys)
  case Nil
  then show ?case by simp
next
  case (Cons x xs)
  then obtain y ys' where ys: "ys = y # ys'" by (cases ys) auto
  obtain k v where x: "x = (k, v)" by (cases x)
  obtain k' w where y: "y = (k', w)" by (cases y)
  from Cons.prems(1) ys x y have kk: "k' = k" and keys: "map fst xs = map fst ys'" by auto
  from Cons.prems(2) x have nk: "k \<notin> set (map fst xs)" and d: "distinct (map fst xs)" by auto
  from Cons.prems(3) have "map_of (x # xs) k = map_of ys k" by (rule fun_cong)
  with ys x y kk have vw: "v = w" by simp
  have "map_of xs j = map_of ys' j" for j
  proof (cases "j = k")
    case True
    with nk keys show ?thesis
      by (metis map_of_eq_None_iff set_map)
  next
    case False
    from Cons.prems(3) have "map_of (x # xs) j = map_of ys j" by (rule fun_cong)
    with False ys x y kk show ?thesis by simp
  qed
  then have "map_of xs = map_of ys'" by (rule ext)
  from Cons.IH [OF keys d this] ys x y kk vw show ?case by simp
qed

lemma merged_value_absent:
  "k \<notin> set Object_prototype \<or> \<not> isObject y \<Longrightarrow>
   merged_value (if k \<in> set Object_prototype then Inherited else Missing) y = Inr (clone y)"
  by (cases y) (auto simp: merged_value_def isObject_def)

lemma get_prop_absent:
  "map_of t k = None \<Longrightarrow>
   get_prop t k = (if k \<in> set Object_prototype then Inherited else Missing)"
  by (simp add: get_prop_def)

lemma copied_fields_values_unshared: "list_all (\<lambda>p. unshared (snd p)) (copied_fields fs)"
  by (simp add: copied_fields_def list_all_iff unshared_clone)

lemma keys_copied_fields:
  "fst ` set (copied_fields fs) = {k \<in> fst ` set fs. isValidKey k}"
  by (force simp: copied_fields_def image_image)

lemma merged_fields_valid:
  "merge (copied_fields fa) fb = Inr fr \<Longrightarrow> list_all (\<lambda>p. isValidKey (fst p)) fr"
proof -
  assume "merge (copied_fields fa) fb = Inr fr"
  from keys_merge [OF this] have "fst ` set fr \<subseteq> {k. isValidKey k}"
    by (auto simp: keys_copied_fields)
  then show ?thesis by (auto simp: list_all_iff)
qed

lemma merge_assoc_lookup:
  assumes db: "distinct (map fst fb)" and dc: "distinct (map fst fc)"
    and pb: "plain_fields fb" and pc: "plain_fields fc"
    and ub: "list_all (\<lambda>p. unshared (snd p)) fb" and uc: "list_all (\<lambda>p. unshared (snd p)) fc"
    and none: "map_of fa k = None \<or> map_of fb k = None \<or> map_of fc k = None"
    and AB: "merge (copied_fields fa) fb = Inr AB"
    and BC: "merge (copied_fields fb) fc = Inr BC"
    and dBC: "distinct (map fst BC)"
    and L: "merge AB fc = Inr L"
    and R: "merge (copied_fields fa) BC = Inr R"
  shows "map_of L k = map_of R k"
proof -
  note lAB = merged_fields_lookup [OF db AB, of k]
  note lBC = merged_fields_lookup [OF dc BC, of k]
  note lL = merge_lookup [OF dc L, of k]
  note lR = merge_lookup [OF dBC R, of k]
  have uBC: "list_all (\<lambda>p. unshared (snd p)) BC"
    by (rule merge_unshared [OF copied_fields_values_unshared uc BC])
  have uy: "clone yy = yy" if "map_of fb k = Some yy" for yy
    using list_all_map_of [OF ub that] by (simp add: unshared_def)
  have uz: "clone zz = zz" if "map_of fc k = Some zz" for zz
    using list_all_map_of [OF uc that] by (simp add: unshared_def)
  have py: "k \<notin> set Object_prototype \<or> \<not> isObject yy" if "map_of fb k = Some yy" for yy
    using list_all_map_of [OF pb [unfolded plain_fields_def] that] by simp
  have pz: "k \<notin> set Object_prototype \<or> \<not> isObject zz" if "map_of fc k = Some zz" for zz
    using list_all_map_of [OF pc [unfolded plain_fields_def] that] by simp
  have "map_option Inr (map_of L k) = (map_option Inr (map_of R k) :: (error + jval) option)"
  proof (cases "isValidKey k")
    case False
    with lAB lBC have "map_of AB k = None" and "map_of BC k = None" by simp_all
    with lL lR False show ?thesis
      by (simp add: loop_rule_def map_of_copied_fields split: option.splits)
  next
    case valid: True
    show ?thesis
    proof (cases "map_of fc k")
      case zN: None
      with lL lAB valid have l: "map_option Inr (map_of L k) = field_rule (map_of fa k) (map_of fb k)"
        by (simp add: loop_rule_def)
      show ?thesis
      proof (cases "map_of fb k")
        case None
        with lBC zN valid have "map_of BC k = None" by (simp add: field_rule_def)
        with lR valid have "map_option Inr (map_of R k) = field_rule (map_of fa k) None"
          by (simp add: loop_rule_def field_rule_def map_of_copied_fields option.map_comp comp_def)
        with l None show ?thesis by simp
      next
        case (Some yy)
        with lBC zN valid uy [OF Some] have b: "map_of BC k = Some yy"
          by (simp add: field_rule_def)
        with lR valid have r: "map_option Inr (map_of R k) =
            Some (merged_value (get_prop (copied_fields fa) k) yy)"
          by (simp add: loop_rule_def)
        show ?thesis
        proof (cases "map_of fa k")
          case None
          with r valid merged_value_absent [OF py [OF Some]] l Some show ?thesis
            by (simp add: get_prop_copied_fields field_rule_def)
        next
          case (Some xx)
          with valid have e1: "get_prop (copied_fields fa) k = Own (clone xx)"
            by (simp add: get_prop_copied_fields)
          from Some \<open>map_of fb k = Some yy\<close>
          have e2: "field_rule (map_of fa k) (map_of fb k) =
              Some (merged_value (Own (clone xx)) yy)"
            by (simp add: field_rule_def)
          show ?thesis by (simp only: l r e1 e2)
        qed
      qed
    next
      case zS: (Some zz)
      with lL valid have l: "map_option Inr (map_of L k) = Some (merged_value (get_prop AB k) zz)"
        by (simp add: loop_rule_def)
      show ?thesis
      proof (cases "map_of fb k")
        case None
        with lAB valid have ab: "map_of AB k = map_option clone (map_of fa k)"
          by (cases "map_of AB k"; cases "map_of fa k") (simp_all add: field_rule_def)
        have g: "get_prop AB k = get_prop (copied_fields fa) k"
          by (simp add: get_prop_def ab map_of_copied_fields valid)
        from lBC zS valid None uz [OF zS] have "map_of BC k = Some zz"
          by (simp add: field_rule_def)
        with lR valid have r: "map_option Inr (map_of R k) =
            Some (merged_value (get_prop (copied_fields fa) k) zz)"
          by (simp add: loop_rule_def)
        show ?thesis by (simp only: l r g)
      next
        case (Some yy)
        with none zS have xN: "map_of fa k = None" by simp
        with lAB valid Some uy [OF Some] have ab: "map_of AB k = Some yy"
          by (simp add: field_rule_def)
        then have g: "get_prop AB k = Own yy" by (simp add: get_prop_def)
        from lBC zS valid Some uy [OF Some]
        have "map_option Inr (map_of BC k) = Some (merged_value (Own yy) zz)"
          by (simp add: field_rule_def)
        then obtain w where w: "map_of BC k = Some w" and mw: "merged_value (Own yy) zz = Inr w"
          by (cases "map_of BC k") auto
        from list_all_map_of [OF uBC w] have cw: "clone w = w" by (simp add: unshared_def)
        from pz [OF zS] merged_value_not_object [OF mw]
        have "k \<notin> set Object_prototype \<or> \<not> isObject w" by auto
        from merged_value_absent [OF this] cw
        have "merged_value (if k \<in> set Object_prototype then Inherited else Missing) w = Inr w"
          by simp
        with lR valid w xN have r: "map_option Inr (map_of R k) = Some (Inr w)"
          by (simp add: loop_rule_def get_prop_copied_fields)
        show ?thesis by (simp only: l r g mw)
      qed
    qed
  qed
  then show ?thesis
    by (cases "map_of L k"; cases "map_of R k") auto
qed

lemma merge_assoc_keys:
  assumes db: "distinct (map fst fb)" and dc: "distinct (map fst fc)"
    and AB: "merge (copied_fields fa) fb = Inr AB"
    and BC: "merge (copied_fields fb) fc = Inr BC"
    and dBC: "distinct (map fst BC)"
    and L: "merge AB fc = Inr L"
    and R: "merge (copied_fields fa) BC = Inr R"
  shows "map fst L = map fst R"
proof -
  have fA: "filter (\<lambda>k. isValidKey k \<and> k \<notin> set (filter isValidKey (map fst fa))) xs =
            filter (\<lambda>k. isValidKey k \<and> k \<notin> fst ` set fa) xs" for xs
    by (intro filter_cong) auto
  have kAB: "map fst AB =
      filter isValidKey (map fst fa) @
      filter (\<lambda>k. isValidKey k \<and> k \<notin> fst ` set fa) (map fst fb)"
    by (simp only: key_list_merge [OF db AB] key_list_copied_fields fA)
  have sAB: "fst ` set AB = {k \<in> fst ` set fa. isValidKey k} \<union> {k \<in> fst ` set fb. isValidKey k}"
    using keys_merge [OF AB] by (simp add: keys_copied_fields)
  have fAB: "filter (\<lambda>k. isValidKey k \<and> k \<notin> set (map fst AB)) (map fst fc) =
      filter (\<lambda>k. isValidKey k \<and> k \<notin> fst ` set fa \<and> k \<notin> fst ` set fb) (map fst fc)"
    by (intro filter_cong) (auto simp: sAB)
  have kL: "map fst L =
      filter isValidKey (map fst fa) @
      filter (\<lambda>k. isValidKey k \<and> k \<notin> fst ` set fa) (map fst fb) @
      filter (\<lambda>k. isValidKey k \<and> k \<notin> fst ` set fa \<and> k \<notin> fst ` set fb) (map fst fc)"
    by (subst key_list_merge [OF dc L], subst fAB, subst kAB) simp
  have fB: "filter (\<lambda>k. isValidKey k \<and> k \<notin> set (filter isValidKey (map fst fb))) xs =
            filter (\<lambda>k. isValidKey k \<and> k \<notin> fst ` set fb) xs" for xs
    by (intro filter_cong) auto
  have kBC: "map fst BC =
      filter isValidKey (map fst fb) @
      filter (\<lambda>k. isValidKey k \<and> k \<notin> fst ` set fb) (map fst fc)"
    by (simp only: key_list_merge [OF dc BC] key_list_copied_fields fB)
  have f1: "filter (\<lambda>k. isValidKey k \<and> k \<notin> fst ` set fa) (filter isValidKey (map fst fb)) =
            filter (\<lambda>k. isValidKey k \<and> k \<notin> fst ` set fa) (map fst fb)"
    by (simp only: filter_filter) (intro filter_cong, auto)
  have f2: "filter (\<lambda>k. isValidKey k \<and> k \<notin> fst ` set fa)
              (filter (\<lambda>k. isValidKey k \<and> k \<notin> fst ` set fb) (map fst fc)) =
            filter (\<lambda>k. isValidKey k \<and> k \<notin> fst ` set fa \<and> k \<notin> fst ` set fb) (map fst fc)"
    by (simp only: filter_filter) (intro filter_cong, auto)
  have kR: "map fst R =
      filter isValidKey (map fst fa) @
      filter (\<lambda>k. isValidKey k \<and> k \<notin> fst ` set fa) (map fst fb) @
      filter (\<lambda>k. isValidKey k \<and> k \<notin> fst ` set fa \<and> k \<notin> fst ` set fb) (map fst fc)"
    by (simp only: key_list_merge [OF dBC R] key_list_copied_fields fA kBC filter_append f1 f2)
  from kL kR show ?thesis by simp
qed

lemma plain_fields_copied_fields: "plain_fields fs \<Longrightarrow> plain_fields (copied_fields fs)"
  by (auto simp: plain_fields_def copied_fields_def list_all_iff isObject_clone)

lemma plain_copied_fields: "plain (JObj j fs) \<Longrightarrow> plain (JObj i (copied_fields fs))"
  by (auto simp: copied_fields_def list_all_iff isObject_clone plain_clone)

lemma has_fields_unshared:
  "has_fields d fs \<Longrightarrow> unshared d \<Longrightarrow> list_all (\<lambda>p. unshared (snd p)) fs"
  by (auto simp: has_fields_def unshared_JObj)

text \<open>
  C7: merging is not associative on data as it stands. \<open>union\<close> drops an element
  that is the very object already pushed, and a later merge copies every element into an
  object of its own. With \<open>o\<close> one object, \<open>a = {k: []}\<close>, \<open>b = {k: [o, o]}\<close>
  and \<open>c = {}\<close>, no field belongs to all three, \<open>(a.merge(b)).merge(c)\<close> has one
  element under \<open>k\<close> and \<open>a.merge(b.merge(c))\<close> two.
\<close>

theorem merge_not_associative_counterexample:
  "ZodFig_merge (\<lambda>s t. t)
     (new_ZodFig () (JObj None [(''k'', JArr None [])]))
     (new_ZodFig () (JObj None [(''k'', JArr None [JObj (Some 1) [], JObj (Some 1) []])])) =
     Inr (new_ZodFig () (JObj None [(''k'', JArr None [JObj (Some 1) []])])) \<and>
   ZodFig_merge (\<lambda>s t. t)
     (new_ZodFig () (JObj None [(''k'', JArr None [JObj (Some 1) []])]))
     (new_ZodFig () (JObj None [])) =
     Inr (new_ZodFig () (JObj None [(''k'', JArr None [JObj None []])])) \<and>
   ZodFig_merge (\<lambda>s t. t)
     (new_ZodFig () (JObj None [(''k'', JArr None [JObj (Some 1) [], JObj (Some 1) []])]))
     (new_ZodFig () (JObj None [])) =
     Inr (new_ZodFig () (JObj None [(''k'', JArr None [JObj None [], JObj None []])])) \<and>
   ZodFig_merge (\<lambda>s t. t)
     (new_ZodFig () (JObj None [(''k'', JArr None [])]))
     (new_ZodFig () (JObj None [(''k'', JArr None [JObj None [], JObj None []])])) =
     Inr (new_ZodFig () (JObj None [(''k'', JArr None [JObj None [], JObj None []])]))"
  by code_simp

text \<open>
  C7, amended: merging is associative on data when no top-level field name belongs to all
  three data values (a field path shared by all three starts with such a name), the data
  are structured values made of primitives, arrays and plain objects (\<open>has_data\<close>),
  the second and third data are trees (\<open>unshared\<close>: no object or array in them is
  referenced twice), and no field named like a member of \<open>Object.prototype\<close> holds an
  object on the way (\<open>plain\<close>). Then all four merges return, and the two groupings
  give the same data.
\<close>

theorem merge_associative_on_data:
  assumes "has_data (config a) fa" and "has_data (config b) fb" and "has_data (config c) fc"
    and "plain_fields fa" and "plain (config b)" and "plain (config c)"
    and "unshared (config b)" and "unshared (config c)"
    and "\<forall>k. \<not> (k \<in> fst ` set fa \<and> k \<in> fst ` set fb \<and> k \<in> fst ` set fc)"
  shows "\<exists>ab bc l r.
           ZodFig_merge zod_merge a b = Inr ab \<and> ZodFig_merge zod_merge b c = Inr bc \<and>
           ZodFig_merge zod_merge ab c = Inr l \<and> ZodFig_merge zod_merge a bc = Inr r \<and>
           config l = config r"
proof -
  note ha = has_data_fields [OF assms(1)] and hb = has_data_fields [OF assms(2)]
    and hc = has_data_fields [OF assms(3)]
  note da = has_fields_distinct [OF ha]
  note db = has_fields_distinct [OF hb]
  note dc = has_fields_distinct [OF hc]
  from has_fields_plain [OF hb assms(5)] obtain jb where pb: "plain (JObj jb fb)" ..
  from has_fields_plain [OF hc assms(6)] obtain jc where pc: "plain (JObj jc fc)" ..
  from pb have pfb: "plain_fields fb" by (simp only: plain_JObj)
  from pc have pfc: "plain_fields fc" by (simp only: plain_JObj)
  note ub = has_fields_unshared [OF hb assms(7)]
  note uc = has_fields_unshared [OF hc assms(8)]
  from merge_returns [OF pb] obtain AB where AB: "merge (copied_fields fa) fb = Inr AB" ..
  from merge_returns [OF pc] obtain BC where BC: "merge (copied_fields fb) fc = Inr BC" ..
  note dAB = merged_fields_distinct [OF da AB]
  note dBC = merged_fields_distinct [OF db BC]
  have hab: "has_fields (JObj None AB) AB" and hbc: "has_fields (JObj None BC) BC"
    using dAB dBC by (simp_all add: has_fields_def distinct_keys_def)
  have pAB: "plain_fields AB"
    by (rule merge_plain_fields [OF plain_fields_copied_fields [OF assms(4)] pfb AB])
  have pBC: "plain (JObj None BC)"
    by (rule merge_plain [OF plain_copied_fields [OF pb] pc BC])
  have uAB: "list_all (\<lambda>p. unshared (snd p)) AB"
    by (rule merge_unshared [OF copied_fields_values_unshared ub AB])
  from merged_fields_valid [OF AB] uAB
  have "list_all (\<lambda>p. isValidKey (fst p) \<and> unshared (snd p)) AB"
    by (simp add: list_all_iff)
  then have cAB: "copied_fields AB = AB" by (rule copied_fields_unshared)
  from merge_returns [OF pc] obtain L where L: "merge AB fc = Inr L" ..
  from merge_returns [OF pBC] obtain R where R: "merge (copied_fields fa) BC = Inr R" ..
  have "L = R"
  proof (rule props_eqI)
    show "map fst L = map fst R"
      by (rule merge_assoc_keys [OF db dc AB BC dBC L R])
    show "distinct (map fst L)"
      by (rule distinct_merge [OF dAB L])
    show "map_of L = map_of R"
    proof (rule ext)
      fix k
      from assms(9) have "map_of fa k = None \<or> map_of fb k = None \<or> map_of fc k = None"
        by (simp add: map_of_eq_None_iff)
      then show "map_of L k = map_of R k"
        by (rule merge_assoc_lookup [OF db dc pfb pfc ub uc _ AB BC dBC L R])
    qed
  qed
  let ?ab = "new_ZodFig (zod_merge (schema a) (schema b)) (JObj None AB)"
  let ?bc = "new_ZodFig (zod_merge (schema b) (schema c)) (JObj None BC)"
  have 1: "ZodFig_merge zod_merge a b = Inr ?ab"
    by (simp add: ZodFig_merge_def mergeDeep_of_data(1) [OF ha hb assms(4)] AB)
  have 2: "ZodFig_merge zod_merge b c = Inr ?bc"
    by (simp add: ZodFig_merge_def mergeDeep_of_data(1) [OF hb hc pfb] BC)
  have cab: "config ?ab = JObj None AB" and cbc: "config ?bc = JObj None BC"
    by (simp_all add: new_ZodFig_def)
  have 3: "ZodFig_merge zod_merge ?ab c =
           Inr (new_ZodFig (zod_merge (schema ?ab) (schema c)) (JObj None L))"
    using hab pAB
    by (simp add: ZodFig_merge_def [of zod_merge ?ab c] cab
        mergeDeep_of_data(1) [OF hab hc pAB] cAB L)
  have 4: "ZodFig_merge zod_merge a ?bc =
           Inr (new_ZodFig (zod_merge (schema a) (schema ?bc)) (JObj None R))"
    by (simp add: ZodFig_merge_def [of zod_merge a ?bc] cbc
        mergeDeep_of_data(1) [OF ha hbc assms(4)] R)
  from 1 2 3 4 \<open>L = R\<close> show ?thesis
    by (intro exI conjI) (assumption+, simp add: new_ZodFig_def)
qed


theorem merge_associative_on_data_witness:
  "(\<exists>ab bc l r.
      ZodFig_merge (\<lambda>s t. t)
        (new_ZodFig () (JObj None [(''db'', JObj None [(''host'', JStr ''h''), (''port'', JNum 1)]),
                                   (''tags'', JArr None [JStr ''a''])]))
        (new_ZodFig () (JObj None [(''db'', JObj None [(''port'', JNum 2)]),
                                   (''log'', JBool True)])) = Inr ab \<and>
      ZodFig_merge (\<lambda>s t. t)
        (new_ZodFig () (JObj None [(''db'', JObj None [(''port'', JNum 2)]),
                                   (''log'', JBool True)]))
        (new_ZodFig () (JObj None [(''tags'', JArr None [JStr ''b'']), (''log'', JNull)])) =
        Inr bc \<and>
      ZodFig_merge (\<lambda>s t. t) ab
        (new_ZodFig () (JObj None [(''tags'', JArr None [JStr ''b'']), (''log'', JNull)])) =
        Inr l \<and>
      ZodFig_merge (\<lambda>s t. t)
        (new_ZodFig () (JObj None [(''db'', JObj None [(''host'', JStr ''h''), (''port'', JNum 1)]),
                                   (''tags'', JArr None [JStr ''a''])])) bc = Inr r \<and>
      config l = config r) \<and>
   ZodFig_merge (\<lambda>s t. t)
     (new_ZodFig () (JObj None [(''db'', JObj None [(''host'', JStr ''h''), (''port'', JNum 1)]),
                                (''tags'', JArr None [JStr ''a''])]))
     (new_ZodFig () (JObj None [(''db'', JObj None [(''port'', JNum 2)]),
                                (''tags'', JArr None [JStr ''b'']), (''log'', JNull)])) =
   Inr (new_ZodFig ()
     (JObj None [(''db'', JObj None [(''host'', JStr ''h''), (''port'', JNum 2)]),
                 (''tags'', JArr None [JStr ''a'', JStr ''b'']), (''log'', JNull)]))"
proof -
  let ?fa = "[(''db'', JObj None [(''host'', JStr ''h''), (''port'', JNum 1)]),
              (''tags'', JArr None [JStr ''a''])]"
  let ?fb = "[(''db'', JObj None [(''port'', JNum 2)]), (''log'', JBool True)]"
  let ?fc = "[(''tags'', JArr None [JStr ''b'']), (''log'', JNull)]"
  have h: "has_data (config (new_ZodFig () (JObj None ?fa))) ?fa"
    "has_data (config (new_ZodFig () (JObj None ?fb))) ?fb"
    "has_data (config (new_ZodFig () (JObj None ?fc))) ?fc"
    by (simp_all add: has_data_def has_fields_def new_ZodFig_def distinct_keys_def)
  have p: "plain_fields ?fa" "plain (config (new_ZodFig () (JObj None ?fb)))"
    "plain (config (new_ZodFig () (JObj None ?fc)))"
    by (simp_all add: plain_fields_def new_ZodFig_def Object_prototype_def isObject_def)
  have u: "unshared (config (new_ZodFig () (JObj None ?fb)))"
    "unshared (config (new_ZodFig () (JObj None ?fc)))"
    by (simp_all add: unshared_def new_ZodFig_def)
  have n: "\<forall>k. \<not> (k \<in> fst ` set ?fa \<and> k \<in> fst ` set ?fb \<and> k \<in> fst ` set ?fc)"
    by auto
  have e: "ZodFig_merge (\<lambda>s t. t)
     (new_ZodFig () (JObj None [(''db'', JObj None [(''host'', JStr ''h''), (''port'', JNum 1)]),
                                (''tags'', JArr None [JStr ''a''])]))
     (new_ZodFig () (JObj None [(''db'', JObj None [(''port'', JNum 2)]),
                                (''tags'', JArr None [JStr ''b'']), (''log'', JNull)])) =
   Inr (new_ZodFig ()
     (JObj None [(''db'', JObj None [(''host'', JStr ''h''), (''port'', JNum 2)]),
                 (''tags'', JArr None [JStr ''a'', JStr ''b'']), (''log'', JNull)]))"
    by code_simp
  from merge_associative_on_data [OF h p u n, of "\<lambda>s t. t"] e show ?thesis
    by (intro conjI)
qed

section \<open>run\<close>

lemma written_log: "written (log x w) = written w"
  by (simp add: log_def)

lemma console_log: "console (log x w) = console w @ [x]"
  by (simp add: log_def)

lemma isWatching_log: "isWatching (log x w) = isWatching w"
  by (simp add: log_def)

lemma written_run_catch: "written (run_catch e w) = written w"
  by (cases e) (simp_all add: run_catch_def written_log)

lemma isWatching_run_catch: "isWatching (run_catch e w) = isWatching w"
  by (cases e) (simp_all add: run_catch_def isWatching_log)

lemma console_run_catch: "\<exists>report. console (run_catch e w) = console w @ report \<and> report \<noteq> []"
  by (cases e) (simp_all add: run_catch_def console_log)

lemma run_after_world: "snd (run_after w) = w"
  by (simp add: run_after_def)

text \<open>A \<open>try\<close> block that throws has persisted nothing.\<close>

lemma run_try_throw_written:
  "run_try h filepath print w = (Throw e, w') \<Longrightarrow> written w' = written w"
  by (auto simp: run_try_def Let_def written_log
      split: if_splits sum.splits exports.splits returned.splits)

lemma isWatching_run_try: "isWatching (snd (run_try h filepath print w)) = isWatching w"
  by (auto simp: run_try_def Let_def isWatching_log
      split: if_splits sum.splits exports.splits returned.splits)

lemma run_try_Return:
  "fst (run_try h filepath print w) = Return \<longleftrightarrow> \<not> existsSync h filepath"
  by (auto simp: run_try_def Let_def
      split: if_splits sum.splits exports.splits returned.splits)

text \<open>
  The promise of \<open>run\<close>: rejected with the \<open>ReferenceError\<close> of line 175 when the
  file exists and \<open>isWatching\<close> holds, fulfilled otherwise.
\<close>

lemma run_promise:
  "fst (run h filepath print w) =
     (if existsSync h filepath \<and> isWatching w then Inl ReferenceError else Inr ())"
proof -
  obtain c w' where t: "run_try h filepath print w = (c, w')"
    by (cases "run_try h filepath print w")
  from isWatching_run_try [of h filepath print w] t have i: "isWatching w' = isWatching w"
    by simp
  from run_try_Return [of h filepath print w] t have r: "c = Return \<longleftrightarrow> \<not> existsSync h filepath"
    by simp
  show ?thesis
    using t i r by (cases c) (simp_all add: run_def run_after_def isWatching_run_catch)
qed

lemma isWatching_run: "isWatching (snd (run h filepath print w)) = isWatching w"
proof -
  obtain c w' where t: "run_try h filepath print w = (c, w')"
    by (cases "run_try h filepath print w")
  from isWatching_run_try [of h filepath print w] t have i: "isWatching w' = isWatching w"
    by simp
  show ?thesis
    using t i by (cases c) (simp_all add: run_def run_after_def isWatching_run_catch)
qed

text \<open>
  C6: \<open>run\<close> is claimed never to raise. Every statement of the \<open>try\<close> block that can
  throw is caught and reported, and a run that threw has persisted nothing. But after
  the \<open>try\<close> statement line 175 reads \<open>runIn\<close>, which the file does not declare:
  whenever the file exists and \<open>isWatching\<close> holds, the promise of \<open>run\<close> is
  rejected with a \<open>ReferenceError\<close>, whether the \<open>try\<close> block threw or not. It is
  fulfilled in every other case.
\<close>

theorem run_rejects_when_watching:
  "fst (run h filepath print w) =
     (if existsSync h filepath \<and> isWatching w then Inl ReferenceError else Inr ()) \<and>
   (\<forall>e w'. run_try h filepath print w = (Throw e, w') \<longrightarrow>
      snd (run h filepath print w) = run_catch e w' \<and>
      written (snd (run h filepath print w)) = written w \<and>
      (\<exists>report. console (run_catch e w') = console w' @ report \<and> report \<noteq> [])) \<and>
   (existsSync h filepath \<longrightarrow>
      (\<forall>e. require h filepath = Inl e \<longrightarrow> fst (run_try h filepath print w) = Throw e) \<and>
      (require h filepath = Inr NoExports \<longrightarrow>
         fst (run_try h filepath print w) = Throw TypeError) \<and>
      (require h filepath = Inr DefaultNotFunction \<longrightarrow>
         fst (run_try h filepath print w) =
           Throw (KnownError (''Expected '' @ filepath @ '' to export default function.''))) \<and>
      (\<forall>e. require h filepath = Inr (DefaultFunction (Inl e)) \<longrightarrow>
         fst (run_try h filepath print w) = Throw e) \<and>
      (require h filepath = Inr (DefaultFunction (Inr Returned_other)) \<longrightarrow>
         fst (run_try h filepath print w) = Throw TypeError) \<and>
      (\<forall>e zodfig. require h filepath = Inr (DefaultFunction (Inr (Returned_ZodFig zodfig))) \<and>
         parse h (schema zodfig) (config zodfig) = Inl e \<longrightarrow>
         fst (run_try h filepath print w) = Throw e) \<and>
      (\<forall>e zodfig parsed.
         require h filepath = Inr (DefaultFunction (Inr (Returned_ZodFig zodfig))) \<and>
         parse h (schema zodfig) (config zodfig) = Inr parsed \<and>
         write_files h parsed = Inl e \<longrightarrow>
         fst (run_try h filepath print w) = Throw e) \<and>
      (\<forall>zodfig parsed.
         require h filepath = Inr (DefaultFunction (Inr (Returned_ZodFig zodfig))) \<and>
         parse h (schema zodfig) (config zodfig) = Inr parsed \<and>
         write_files h parsed = Inr () \<longrightarrow>
         fst (run_try h filepath print w) = Normal \<and>
         written (snd (run h filepath print w)) = written w @ [parsed]))"
proof (intro conjI allI impI)
  show "fst (run h filepath print w) =
     (if existsSync h filepath \<and> isWatching w then Inl ReferenceError else Inr ())"
    by (rule run_promise)
next
  fix e w'
  assume t: "run_try h filepath print w = (Throw e, w')"
  then show s: "snd (run h filepath print w) = run_catch e w'"
    by (simp add: run_def run_after_world)
  with run_try_throw_written [OF t]
  show "written (snd (run h filepath print w)) = written w"
    by (simp add: written_run_catch)
  show "\<exists>report. console (run_catch e w') = console w' @ report \<and> report \<noteq> []"
    by (rule console_run_catch)
qed (auto simp: run_try_def run_def Let_def run_after_def written_log log_def)


theorem run_rejects_when_watching_witness:
  "run rejecting_host ''zodfig.ts'' False (quiet_world\<lparr>isWatching := True\<rparr>) =
     (Inl ReferenceError,
      \<lparr>isWatching = True,
       console = [Line ''Writing config for zodfig.ts'', Line ''Zod validation error'',
                  Issues [([''port''], ''Expected number'')]],
       required = [''zodfig.ts''],
       written = []\<rparr>) \<and>
   run working_host ''zodfig.ts'' False (quiet_world\<lparr>isWatching := True\<rparr>) =
     (Inl ReferenceError,
      \<lparr>isWatching = True,
       console = [Line ''Writing config for zodfig.ts'',
                  Line ''Config files written for zodfig.ts''],
       required = [''zodfig.ts''],
       written = [JObj None [(''port'', JStr ''x'')]]\<rparr>) \<and>
   run no_function_host ''zodfig.ts'' False quiet_world =
     (Inr (),
      \<lparr>isWatching = False,
       console = [Line ''Writing config for zodfig.ts'',
                  Line ''Expected zodfig.ts to export default function.''],
       required = [''zodfig.ts''],
       written = []\<rparr>) \<and>
   run unloadable_host ''zodfig.ts'' False quiet_world =
     (Inr (),
      \<lparr>isWatching = False,
       console = [Line ''Writing config for zodfig.ts'', Thrown (OtherError ''SyntaxError'')],
       required = [''zodfig.ts''],
       written = []\<rparr>) \<and>
   fst (run_try no_exports_host ''zodfig.ts'' False quiet_world) = Throw TypeError \<and>
   fst (run_try no_zodfig_host ''zodfig.ts'' False quiet_world) = Throw TypeError \<and>
   fst (run_try throwing_factory_host ''zodfig.ts'' False quiet_world) =
     Throw (KnownError ''no env'') \<and>
   fst (run_try unwritable_host ''zodfig.ts'' False quiet_world) =
     Throw (OtherError ''EACCES'')"
proof -
  let ?f = "''zodfig.ts''"
  let ?ww = "quiet_world\<lparr>isWatching := True\<rparr>"
  let ?z = "new_ZodFig () (JObj None [(''port'', JStr ''x'')])"
  let ?w1 = "\<lambda>b. \<lparr>isWatching = b, console = [Line ''Writing config for zodfig.ts''],
              required = [''zodfig.ts''], written = []\<rparr>"
  note defs = rejecting_host_def working_host_def no_function_host_def unloadable_host_def
    no_exports_host_def no_zodfig_host_def throwing_factory_host_def unwritable_host_def
    quiet_world_def
  have paths: "existsSync h ?f \<Longrightarrow>
      (\<forall>e. require h ?f = Inl e \<longrightarrow> fst (run_try h ?f False w) = Throw e) \<and>
      (require h ?f = Inr NoExports \<longrightarrow> fst (run_try h ?f False w) = Throw TypeError) \<and>
      (require h ?f = Inr DefaultNotFunction \<longrightarrow>
         fst (run_try h ?f False w) =
           Throw (KnownError (''Expected '' @ ?f @ '' to export default function.''))) \<and>
      (\<forall>e. require h ?f = Inr (DefaultFunction (Inl e)) \<longrightarrow>
         fst (run_try h ?f False w) = Throw e) \<and>
      (require h ?f = Inr (DefaultFunction (Inr Returned_other)) \<longrightarrow>
         fst (run_try h ?f False w) = Throw TypeError) \<and>
      (\<forall>e zodfig. require h ?f = Inr (DefaultFunction (Inr (Returned_ZodFig zodfig))) \<and>
         parse h (schema zodfig) (config zodfig) = Inl e \<longrightarrow>
         fst (run_try h ?f False w) = Throw e) \<and>
      (\<forall>e zodfig parsed.
         require h ?f = Inr (DefaultFunction (Inr (Returned_ZodFig zodfig))) \<and>
         parse h (schema zodfig) (config zodfig) = Inr parsed \<and>
         write_files h parsed = Inl e \<longrightarrow>
         fst (run_try h ?f False w) = Throw e) \<and>
      (\<forall>zodfig parsed.
         require h ?f = Inr (DefaultFunction (Inr (Returned_ZodFig zodfig))) \<and>
         parse h (schema zodfig) (config zodfig) = Inr parsed \<and>
         write_files h parsed = Inr () \<longrightarrow>
         fst (run_try h ?f False w) = Normal \<and>
         written (snd (run h ?f False w)) = written w @ [parsed])" for h :: "unit host" and w
    by (rule run_rejects_when_watching [of h ?f False w, THEN conjunct2, THEN conjunct2, THEN mp])
  have promise: "fst (run h ?f False w) =
      (if existsSync h ?f \<and> isWatching w then Inl ReferenceError else Inr ())"
    for h :: "unit host" and w
    by (rule run_rejects_when_watching [of h ?f False w, THEN conjunct1])
  have caught: "run_try h ?f False w = (Throw e, w') \<Longrightarrow> snd (run h ?f False w) = run_catch e w'"
    for h :: "unit host" and w e w'
    using run_rejects_when_watching [of h ?f False w, THEN conjunct2, THEN conjunct1] by blast
  have snd_try: "snd (run_try h ?f False w) = ?w1 (isWatching w)"
    if "existsSync h ?f" and "fst (run_try h ?f False w) \<noteq> Normal"
      and "console w = []" and "required w = []" and "written w = []"
    for h :: "unit host" and w
    using that
    by (auto simp: run_try_def Let_def log_def
        split: sum.splits exports.splits returned.splits)
  have 1: "run rejecting_host ?f False ?ww =
     (Inl ReferenceError, run_catch (ZodError [([''port''], ''Expected number'')]) (?w1 True))"
  proof -
    have e: "existsSync rejecting_host ?f" by (simp add: defs)
    have "require rejecting_host ?f = Inr (DefaultFunction (Inr (Returned_ZodFig ?z))) \<and>
        parse rejecting_host (schema ?z) (config ?z) =
          Inl (ZodError [([''port''], ''Expected number'')])"
      by (simp add: defs)
    with paths [OF e, of ?ww]
    have f: "fst (run_try rejecting_host ?f False ?ww) =
        Throw (ZodError [([''port''], ''Expected number'')])"
      by blast
    with snd_try [OF e, of ?ww]
    have "run_try rejecting_host ?f False ?ww =
        (Throw (ZodError [([''port''], ''Expected number'')]), ?w1 True)"
      by (simp add: prod_eq_iff defs)
    from caught [OF this] promise [of rejecting_host ?ww] e show ?thesis
      by (simp add: prod_eq_iff defs)
  qed
  have 2: "fst (run working_host ?f False ?ww) = Inl ReferenceError"
    using promise [of working_host ?ww] by (simp add: defs)
  have 3: "run no_function_host ?f False quiet_world =
     (Inr (), run_catch (KnownError ''Expected zodfig.ts to export default function.'')
        (?w1 False))"
  proof -
    have e: "existsSync no_function_host ?f" by (simp add: defs)
    have "require no_function_host ?f = Inr DefaultNotFunction"
      by (simp add: defs)
    with paths [OF e, of quiet_world]
    have f: "fst (run_try no_function_host ?f False quiet_world) =
        Throw (KnownError ''Expected zodfig.ts to export default function.'')"
      by simp
    with snd_try [OF e, of quiet_world]
    have "run_try no_function_host ?f False quiet_world =
        (Throw (KnownError ''Expected zodfig.ts to export default function.''), ?w1 False)"
      by (simp add: prod_eq_iff defs)
    from caught [OF this] promise [of no_function_host quiet_world] e show ?thesis
      by (simp add: prod_eq_iff defs)
  qed
  have 4: "run unloadable_host ?f False quiet_world =
     (Inr (), run_catch (OtherError ''SyntaxError'') (?w1 False))"
  proof -
    have e: "existsSync unloadable_host ?f" by (simp add: defs)
    have "require unloadable_host ?f = Inl (OtherError ''SyntaxError'')"
      by (simp add: defs)
    with paths [OF e, of quiet_world]
    have f: "fst (run_try unloadable_host ?f False quiet_world) =
        Throw (OtherError ''SyntaxError'')"
      by simp
    with snd_try [OF e, of quiet_world]
    have "run_try unloadable_host ?f False quiet_world =
        (Throw (OtherError ''SyntaxError''), ?w1 False)"
      by (simp add: prod_eq_iff defs)
    from caught [OF this] promise [of unloadable_host quiet_world] e show ?thesis
      by (simp add: prod_eq_iff defs)
  qed
  have 5: "fst (run_try no_exports_host ?f False quiet_world) = Throw TypeError"
    using paths [of no_exports_host quiet_world] by (simp add: defs)
  have 6: "fst (run_try no_zodfig_host ?f False quiet_world) = Throw TypeError"
    using paths [of no_zodfig_host quiet_world] by (simp add: defs)
  have 7: "fst (run_try throwing_factory_host ?f False quiet_world) =
     Throw (KnownError ''no env'')"
    using paths [of throwing_factory_host quiet_world] by (simp add: defs)
  have 8: "fst (run_try unwritable_host ?f False quiet_world) = Throw (OtherError ''EACCES'')"
  proof -
    have e: "existsSync unwritable_host ?f" by (simp add: defs)
    have "require unwritable_host ?f = Inr (DefaultFunction (Inr (Returned_ZodFig ?z))) \<and>
        parse unwritable_host (schema ?z) (config ?z) = Inr (JObj None [(''port'', JStr ''x'')]) \<and>
        write_files unwritable_host (JObj None [(''port'', JStr ''x'')]) =
          Inl (OtherError ''EACCES'')"
      by (simp add: defs new_ZodFig_def)
    with paths [OF e, of quiet_world] show ?thesis by blast
  qed
  have 9: "snd (run working_host ?f False ?ww) =
      \<lparr>isWatching = True,
       console = [Line ''Writing config for zodfig.ts'',
                  Line ''Config files written for zodfig.ts''],
       required = [''zodfig.ts''],
       written = [JObj None [(''port'', JStr ''x'')]]\<rparr>"
    by (simp add: run_def run_try_def run_after_def Let_def log_def defs new_ZodFig_def)
  from 1 2 3 4 5 6 7 8 9 show ?thesis
    by (simp add: prod_eq_iff run_catch_def log_def)
qed

text \<open>
  C10: for a path that does not exist, \<open>run\<close> returns at once: the promise is
  fulfilled and the world is as it was, with nothing loaded, nothing printed and nothing
  persisted.
\<close>

theorem run_missing_file:
  "\<not> existsSync h filepath \<Longrightarrow> run h filepath print w = (Inr (), w)"
  by (simp add: run_def run_try_def)

theorem run_missing_file_witness:
  "\<not> existsSync rejecting_host ''other.ts'' \<and>
   run rejecting_host ''other.ts'' True (quiet_world\<lparr>isWatching := True\<rparr>) =
     (Inr (), quiet_world\<lparr>isWatching := True\<rparr>)"
proof -
  have n: "\<not> existsSync rejecting_host ''other.ts''"
    by (simp add: rejecting_host_def)
  from run_missing_file [OF n, of True "quiet_world\<lparr>isWatching := True\<rparr>"] n
  show ?thesis by simp
qed

section \<open>go\<close>

lemma go_resume_inv:
  "watch_inv h s \<Longrightarrow> \<not> shouldRego s \<Longrightarrow> in_flight s = [] \<Longrightarrow> watch_inv h (go_resume p s)"
  by (auto simp: watch_inv_def go_resume_def Let_def split: option.splits)

lemma go_enter_inv:
  assumes "watch_inv h s" and "watch p"
  shows "watch_inv h (go_enter h p (Some fs) s)"
proof (cases "going s")
  case True
  with assms show ?thesis by (simp add: go_enter_def watch_inv_def)
next
  case False
  with assms(1) have e: "in_flight s = []" by (auto simp: watch_inv_def)
  let ?s1 = "if shouldRego s then s\<lparr>shouldRego := False\<rparr> else s"
  let ?s2 = "case activeCmd ?s1 of Some name \<Rightarrow> ?s1\<lparr>stopped := stopped ?s1 @ [name]\<rparr>
      | None \<Rightarrow> ?s1"
  let ?s3 = "?s2\<lparr>going := True, globals := (globals ?s2)\<lparr>isWatching := watch p\<rparr>\<rparr>"
  let ?s4 = "?s3\<lparr>started := started ?s3 @ [first_path fs]\<rparr>"
  have s4: "watch_inv h ?s4" "\<not> shouldRego ?s4" "in_flight ?s4 = []" "going ?s4"
    "isWatching (globals ?s4)" "timers ?s4 = 0"
    using assms e by (auto simp: watch_inv_def split: option.splits)
  have g: "go_enter h p (Some fs) s =
      (case first_path fs of
         None \<Rightarrow> go_resume p ?s4
       | Some f \<Rightarrow> if existsSync h f then ?s4\<lparr>in_flight := in_flight ?s4 @ [f]\<rparr>
                   else go_resume p ?s4)"
    using False by (simp add: go_enter_def Let_def)
  show ?thesis
  proof (cases "first_path fs")
    case None
    with g go_resume_inv [OF s4(1-3)] show ?thesis by simp
  next
    case (Some f)
    show ?thesis
    proof (cases "existsSync h f")
      case True
      with g Some have "go_enter h p (Some fs) s = ?s4\<lparr>in_flight := in_flight ?s4 @ [f]\<rparr>"
        by simp
      moreover have "watch_inv h (?s4\<lparr>in_flight := in_flight ?s4 @ [f]\<rparr>)"
        using s4(3-6) True by (simp add: watch_inv_def)
      ultimately show ?thesis by simp
    next
      case False
      with g Some go_resume_inv [OF s4(1-3)] show ?thesis by simp
    qed
  qed
qed

lemma step_inv:
  assumes "watch_inv h s" and "watch p"
  shows "watch_inv h (step h p fs s ev)"
proof (cases "exited s")
  case True
  with assms show ?thesis by (simp add: step_def)
next
  case False
  show ?thesis
  proof (cases ev)
    case Change
    with False assms go_enter_inv [OF assms, of fs] show ?thesis by (simp add: step_def)
  next
    case OtherWatch
    with False assms show ?thesis
      by (auto simp: step_def watch_inv_def split: option.splits)
  next
    case RunDone
    show ?thesis
    proof (cases "in_flight s")
      case Nil
      with RunDone False assms show ?thesis by (simp add: step_def)
    next
      case (Cons f rest)
      with assms(1) have r: "rest = []" and e: "existsSync h f" and i: "isWatching (globals s)"
        by (auto simp: watch_inv_def)
      from run_promise [of h f "verbose p" "globals s"] e i
      have "fst (run h f (verbose p) (globals s)) = Inl ReferenceError" by simp
      then obtain w where "run h f (verbose p) (globals s) = (Inl ReferenceError, w)"
        by (cases "run h f (verbose p) (globals s)") simp
      with RunDone False Cons r assms(1) show ?thesis
        by (simp add: step_def watch_inv_def)
    qed
  next
    case TimerFired
    with False assms show ?thesis by (simp add: step_def watch_inv_def)
  next
    case CommandExit
    with False assms show ?thesis by (simp add: step_def)
  qed
qed

lemma foldl_step_inv:
  "watch_inv h s \<Longrightarrow> watch p \<Longrightarrow> watch_inv h (foldl (step h p fs) s events)"
  by (induction events arbitrary: s) (simp_all add: step_inv)

lemma cli_inv: "watch p \<Longrightarrow> watch_inv h (cli h p fs w events)"
  unfolding cli_def
  by (intro foldl_step_inv go_enter_inv) (simp_all add: watch_inv_def initial_def)

lemma step_first_run_only:
  assumes "watch_inv h s" and "watch p" and "first_run_only f s"
  shows "first_run_only f (step h p fs s ev)"
proof (cases "exited s")
  case True
  with assms show ?thesis by (simp add: step_def)
next
  case False
  show ?thesis
  proof (cases ev)
    case Change
    with False assms show ?thesis by (simp add: step_def go_enter_def first_run_only_def)
  next
    case OtherWatch
    with False assms show ?thesis
      by (auto simp: step_def first_run_only_def split: option.splits)
  next
    case RunDone
    show ?thesis
    proof (cases "in_flight s")
      case Nil
      with RunDone False assms show ?thesis by (simp add: step_def)
    next
      case (Cons g rest)
      with assms(1) have e: "existsSync h g" and i: "isWatching (globals s)"
        by (auto simp: watch_inv_def)
      from run_promise [of h g "verbose p" "globals s"] e i
      have "fst (run h g (verbose p) (globals s)) = Inl ReferenceError" by simp
      then obtain w where "run h g (verbose p) (globals s) = (Inl ReferenceError, w)"
        by (cases "run h g (verbose p) (globals s)") simp
      with RunDone False Cons assms(3) show ?thesis
        by (simp add: step_def first_run_only_def)
    qed
  next
    case TimerFired
    with False assms show ?thesis by (simp add: step_def watch_inv_def)
  next
    case CommandExit
    with False assms show ?thesis by (simp add: step_def)
  qed
qed

lemma foldl_first_run_only:
  "watch_inv h s \<Longrightarrow> watch p \<Longrightarrow> first_run_only f s \<Longrightarrow>
   first_run_only f (foldl (step h p fs) s events)"
  by (induction events arbitrary: s) (simp_all add: step_inv step_first_run_only)

lemma cli_first_run_only:
  assumes "watch p" and "existsSync h f"
  shows "first_run_only f (cli h p (f # fs) w events)"
  unfolding cli_def
proof (rule foldl_first_run_only [OF _ assms(1)])
  show "watch_inv h (go_enter h p (Some (f # fs)) (initial w))"
    by (rule go_enter_inv [OF _ assms(1)]) (simp add: watch_inv_def initial_def)
  show "first_run_only f (go_enter h p (Some (f # fs)) (initial w))"
    using assms(2)
    by (simp add: first_run_only_def go_enter_def initial_def first_path_def Let_def)
qed


text \<open>
  \<open>go\<close> called without an argument, as a timer queued by \<open>setTimeout(go, 0)\<close> would
  call it: when no run is going, \<open>going\<close> is set, \<open>filepaths[0]\<close> raises a
  \<open>TypeError\<close> and no run is started.
\<close>

lemma go_without_argument:
  "\<not> going s \<Longrightarrow>
   going (go_enter h p None s) \<and> started (go_enter h p None s) = started s \<and>
   in_flight (go_enter h p None s) = in_flight s \<and>
   rejected (go_enter h p None s) = rejected s @ [TypeError]"
  by (simp add: go_enter_def Let_def split: option.splits)

text \<open>
  C9: in watch mode at most one run is waited for at a time, and nothing is cancelled.
  But the changes that arrive during a run lead to no follow-up run. A run that takes
  time is the run of a file that exists; in watch mode its promise is rejected at line
  175, so the \<open>await\<close> of line 90 throws and \<open>go\<close> ends there: no timer is ever
  queued, \<open>going\<close> is never reset, and the first run is the only one the command ever
  starts, whatever events follow. After one change during the run and the end of the
  run, the request is recorded in \<open>shouldRego\<close> and the promise of \<open>go\<close> is rejected.
\<close>

theorem follow_up_run_never_starts:
  assumes "watch p"
  shows "length (in_flight (cli h p configFiles w events)) \<le> 1 \<and>
         timers (cli h p configFiles w events) = 0 \<and>
         (existsSync h f \<longrightarrow>
            going (cli h p (f # fs) w events) \<and>
            started (cli h p (f # fs) w events) = [Some f] \<and>
            in_flight (cli h p (f # fs) w [Change]) = [f] \<and>
            shouldRego (cli h p (f # fs) w [Change, RunDone]) \<and>
            in_flight (cli h p (f # fs) w [Change, RunDone]) = [] \<and>
            rejected (cli h p (f # fs) w [Change, RunDone]) = [ReferenceError])"
proof (intro conjI impI)
  from cli_inv [OF assms, of h configFiles w events]
  show "length (in_flight (cli h p configFiles w events)) \<le> 1"
    and "timers (cli h p configFiles w events) = 0"
    by (simp_all add: watch_inv_def)
next
  assume e: "existsSync h f"
  from cli_first_run_only [OF assms e, of fs w events]
  show "going (cli h p (f # fs) w events)" and "started (cli h p (f # fs) w events) = [Some f]"
    by (simp_all add: first_run_only_def)
  let ?s0 = "go_enter h p (Some (f # fs)) (initial w)"
  have s0: "?s0 = (initial w)\<lparr>going := True, globals := w\<lparr>isWatching := True\<rparr>,
      started := [Some f], in_flight := [f]\<rparr>"
    using e assms by (simp add: go_enter_def initial_def first_path_def Let_def)
  define t0 where "t0 = go_enter h p (Some (f # fs)) (initial w)"
  from s0 have t0: "t0 = (initial w)\<lparr>going := True, globals := w\<lparr>isWatching := True\<rparr>,
      started := [Some f], in_flight := [f]\<rparr>"
    by (simp only: t0_def)
  have s1: "step h p (f # fs) t0 Change = t0\<lparr>shouldRego := True\<rparr>"
    using assms by (simp add: t0 step_def go_enter_def initial_def)
  then show "in_flight (cli h p (f # fs) w [Change]) = [f]"
    by (simp add: cli_def t0_def [symmetric]) (simp add: t0)
  from run_promise [of h f "verbose p" "w\<lparr>isWatching := True\<rparr>"] e
  obtain w' where r: "run h f (verbose p) (w\<lparr>isWatching := True\<rparr>) = (Inl ReferenceError, w')"
    by (cases "run h f (verbose p) (w\<lparr>isWatching := True\<rparr>)") simp
  have s2: "step h p (f # fs) (t0\<lparr>shouldRego := True\<rparr>) RunDone =
      t0\<lparr>shouldRego := True, in_flight := [], globals := w', rejected := [ReferenceError]\<rparr>"
    by (simp add: t0 step_def initial_def r)
  have c: "cli h p (f # fs) w [Change, RunDone] =
      t0\<lparr>shouldRego := True, in_flight := [], globals := w', rejected := [ReferenceError]\<rparr>"
    by (simp add: cli_def t0_def [symmetric] s1 s2)
  show "shouldRego (cli h p (f # fs) w [Change, RunDone])"
    and "in_flight (cli h p (f # fs) w [Change, RunDone]) = []"
    and "rejected (cli h p (f # fs) w [Change, RunDone]) = [ReferenceError]"
    by (simp_all add: c)
qed

theorem follow_up_run_never_starts_witness:
  "watch watching \<and> existsSync working_host ''zodfig.ts'' \<and>
   length (in_flight (cli working_host watching [''zodfig.ts''] quiet_world
     [Change, Change, RunDone, TimerFired, Change])) \<le> 1 \<and>
   timers (cli working_host watching [''zodfig.ts''] quiet_world
     [Change, Change, RunDone, TimerFired, Change]) = 0 \<and>
   going (cli working_host watching [''zodfig.ts''] quiet_world
     [Change, Change, RunDone, TimerFired, Change]) \<and>
   started (cli working_host watching [''zodfig.ts''] quiet_world
     [Change, Change, RunDone, TimerFired, Change]) = [Some ''zodfig.ts''] \<and>
   shouldRego (cli working_host watching [''zodfig.ts''] quiet_world [Change, RunDone]) \<and>
   in_flight (cli working_host watching [''zodfig.ts''] quiet_world [Change, RunDone]) = [] \<and>
   rejected (cli working_host watching [''zodfig.ts''] quiet_world [Change, RunDone]) =
     [ReferenceError] \<and>
   written (globals (cli working_host watching [''zodfig.ts''] quiet_world [Change, RunDone])) =
     [JObj None [(''port'', JStr ''x'')]]"
proof -
  have w: "watch watching" by (simp add: watching_def)
  have e: "existsSync working_host ''zodfig.ts''"
    by (simp add: working_host_def rejecting_host_def)
  note t = follow_up_run_never_starts [OF w, of working_host "[''zodfig.ts'']" quiet_world
      "[Change, Change, RunDone, TimerFired, Change]" "''zodfig.ts''" "[]"]
  note a = t [THEN conjunct1]
  note b = t [THEN conjunct2, THEN conjunct1]
  note c = t [THEN conjunct2, THEN conjunct2, THEN mp, OF e]
  have d: "written (globals (cli working_host watching [''zodfig.ts''] quiet_world
      [Change, RunDone])) = [JObj None [(''port'', JStr ''x'')]]"
    by (simp add: cli_def step_def go_enter_def initial_def first_path_def Let_def watching_def
        working_host_def rejecting_host_def quiet_world_def run_def run_try_def run_after_def
        log_def new_ZodFig_def)
  from w e a b c d show ?thesis by (intro conjI) simp_all
qed

section \<open>merge-deep writes into its own objects only\<close>

lemma extends_refl: "extends st st"
  by (simp add: extends_def)

lemma extends_trans: "extends st st1 \<Longrightarrow> extends st1 st2 \<Longrightarrow> extends st st2"
  by (auto simp: extends_def)

lemma extends_length: "extends st st' \<Longrightarrow> length st \<le> length st'"
  by (auto simp: extends_def)

lemma extends_nth: "extends st st' \<Longrightarrow> a < length st \<Longrightarrow> st' ! a = st ! a"
  by (auto simp: extends_def nth_append)

lemma extends_new_cell: "new_cell ps arr st = (r, st') \<Longrightarrow> extends st st'"
  by (auto simp: new_cell_def extends_def)

lemma extends_unchanged_below:
  "extends st st' \<Longrightarrow> unchanged_below n st st'"
  by (auto simp: unchanged_below_def extends_def nth_append)

lemma unchanged_below_refl: "unchanged_below n st st"
  by (simp add: unchanged_below_def)

lemma unchanged_below_trans:
  "unchanged_below n st st1 \<Longrightarrow> unchanged_below n st1 st2 \<Longrightarrow> unchanged_below n st st2"
  by (auto simp: unchanged_below_def)

lemma points_new_mono:
  "points_new n st v \<Longrightarrow> unchanged_below m st st' \<Longrightarrow> points_new n st' v"
  by (cases v) (auto simp: points_new_def unchanged_below_def)

lemma points_new_fresh:
  "n \<le> r \<Longrightarrow> r < length st \<Longrightarrow> points_new n st (HRef r)"
  by (simp add: points_new_def)

lemma closed_extend:
  assumes "new_objects_closed n st" and "extends st st'"
    and "\<forall>a. length st \<le> a \<and> a < length st' \<and> \<not> is_array (st' ! a) \<longrightarrow>
           list_all (\<lambda>p. points_new n st' (snd p)) (props_of (st' ! a))"
  shows "new_objects_closed n st'"
  unfolding new_objects_closed_def
proof (intro allI impI)
  fix a
  assume a: "a < length st'" and c: "n \<le> a \<and> \<not> is_array (st' ! a)"
  show "list_all (\<lambda>p. points_new n st' (snd p)) (props_of (st' ! a))"
  proof (cases "a < length st")
    case True
    with extends_nth [OF assms(2)] have e: "st' ! a = st ! a" by simp
    with assms(1) True c have "list_all (\<lambda>p. points_new n st (snd p)) (props_of (st ! a))"
      by (simp add: new_objects_closed_def)
    then show ?thesis
      unfolding e list_all_iff
      by (auto intro: points_new_mono [OF _ extends_unchanged_below [OF assms(2)]])
  next
    case False
    with assms(3) a c show ?thesis by simp
  qed
qed

text \<open>\<open>clone\<close> adds cells and writes to none; its copy refers to its own cells only.\<close>

lemma store_clone_frame:
  "store_clone fuel v st = (r, st') \<Longrightarrow>
     extends st st' \<and> (\<forall>e. r = Inl e \<longrightarrow> merge_error e) \<and>
     (n \<le> length st \<longrightarrow> new_objects_closed n st \<longrightarrow>
        new_objects_closed n st' \<and> (\<forall>x. r = Inr x \<longrightarrow> points_new n st' x))"
  and store_clone_props_frame:
  "store_clone_props fuel ps st = (rs, st') \<Longrightarrow>
     extends st st' \<and> (\<forall>e. rs = Inl e \<longrightarrow> merge_error e) \<and>
     (n \<le> length st \<longrightarrow> new_objects_closed n st \<longrightarrow>
        new_objects_closed n st' \<and>
        (\<forall>ps'. rs = Inr ps' \<longrightarrow> list_all (\<lambda>p. points_new n st' (snd p)) ps'))"
proof (induction fuel v st and fuel ps st arbitrary: r st' and rs st'
    rule: store_clone_store_clone_props.induct)
  case (1 v st)
  then show ?case
    by (cases v) (auto simp: extends_refl merge_error_def points_new_def)
next
  case (2 fuel v st)
  show ?case
  proof (cases v)
    case (HRef a)
    show ?thesis
    proof (cases "a < length st \<and> plain_object (st ! a)")
      case False
      with HRef "2.prems" show ?thesis
        by (auto simp: extends_refl merge_error_def)
    next
      case True
      obtain rs st1 where c: "store_clone_props fuel (props_of (st ! a)) st = (rs, st1)"
        by (cases "store_clone_props fuel (props_of (st ! a)) st")
      note ih = "2.IH" [OF HRef True c]
      show ?thesis
      proof (cases rs)
        case (Inl e)
        with "2.prems" HRef True c ih show ?thesis by auto
      next
        case (Inr ps')
        with "2.prems" HRef True c have r: "r = Inr (HRef (length st1))"
          and st': "st' = st1 @ [\<lparr>props_of = ps', is_array = is_array (st ! a), frozen = False\<rparr>]"
          by (auto simp: new_cell_def)
        from st' have e1: "extends st1 st'" by (simp add: extends_def)
        from ih have e0: "extends st st1" by simp
        have "new_objects_closed n st' \<and> points_new n st' (HRef (length st1))"
          if n: "n \<le> length st" and cl: "new_objects_closed n st"
        proof
          from ih n cl Inr have cl1: "new_objects_closed n st1"
            and ps: "list_all (\<lambda>p. points_new n st1 (snd p)) ps'" by auto
          show "new_objects_closed n st'"
          proof (rule closed_extend [OF cl1 e1], intro allI impI)
            fix b
            assume "length st1 \<le> b \<and> b < length st' \<and> \<not> is_array (st' ! b)"
            with st' have b: "b = length st1" by simp
            from ps show "list_all (\<lambda>p. points_new n st' (snd p)) (props_of (st' ! b))"
              unfolding b list_all_iff
              by (auto simp: st' intro: points_new_mono [OF _ extends_unchanged_below [OF e1 [unfolded st']]])
          qed
          from n extends_length [OF e0] show "points_new n st' (HRef (length st1))"
            by (simp add: points_new_def st')
        qed
        with r extends_trans [OF e0 e1] show ?thesis by simp
      qed
    qed
  qed (use "2.prems" in \<open>auto simp: extends_refl points_new_def\<close>)
next
  case (3 fuel st)
  then show ?case by (auto simp: extends_refl)
next
  case (4 fuel k v ps st)
  obtain r1 st1 where c1: "store_clone fuel v st = (r1, st1)"
    by (cases "store_clone fuel v st")
  note ih1 = "4.IH"(1) [OF c1]
  show ?case
  proof (cases r1)
    case (Inl e)
    with "4.prems" c1 ih1 show ?thesis by auto
  next
    case (Inr v')
    obtain r2 st2 where c2: "store_clone_props fuel ps st1 = (r2, st2)"
      by (cases "store_clone_props fuel ps st1")
    note ih2 = "4.IH"(2) [OF c1 [symmetric] Inr c2]
    from ih1 have e1: "extends st st1" by simp
    from ih2 have e2: "extends st1 st2" by simp
    show ?thesis
    proof (cases r2)
      case (Inl e)
      with "4.prems" c1 c2 Inr ih2 extends_trans [OF e1 e2] extends_length [OF e1] ih1
      show ?thesis by auto
    next
      case ps': (Inr ps')
      with "4.prems" c1 c2 Inr have rs: "rs = Inr ((k, v') # ps')" and s: "st' = st2" by auto
      have "new_objects_closed n st2 \<and> list_all (\<lambda>p. points_new n st2 (snd p)) ((k, v') # ps')"
        if n: "n \<le> length st" and cl: "new_objects_closed n st"
      proof -
        from ih1 n cl Inr have cl1: "new_objects_closed n st1" and pv: "points_new n st1 v'"
          by auto
        from n extends_length [OF e1] have n1: "n \<le> length st1" by simp
        from ih2 n1 cl1 ps' have "new_objects_closed n st2"
          and "list_all (\<lambda>p. points_new n st2 (snd p)) ps'" by auto
        with points_new_mono [OF pv extends_unchanged_below [OF e2]] show ?thesis by simp
      qed
      with rs s extends_trans [OF e1 e2] show ?thesis by simp
    qed
  qed
qed


lemma store_union_frame:
  assumes "store_union args st = (r, st')"
  shows "extends st st'" and "r = HRef (length st)" and "length st' = Suc (length st)"
    and "is_array (st' ! length st)"
  using assms by (auto simp: store_union_def new_cell_def Let_def extends_def)

lemma closed_new_array:
  assumes "new_objects_closed n st" and "extends st st'" and "length st' = Suc (length st)"
    and "is_array (st' ! length st)"
  shows "new_objects_closed n st'"
proof (rule closed_extend [OF assms(1,2)], intro allI impI)
  fix a
  assume "length st \<le> a \<and> a < length st' \<and> \<not> is_array (st' ! a)"
  with assms(3,4) have False by (cases "a = length st") auto
  then show "list_all (\<lambda>p. points_new n st' (snd p)) (props_of (st' ! a))" ..
qed

lemma list_all_h_set_prop:
  "list_all P fs \<Longrightarrow> P (k, v) \<Longrightarrow> list_all P (h_set_prop fs k v)"
  by (induction fs k v rule: h_set_prop.induct) auto

text \<open>An assignment to a property of one of the new objects.\<close>

lemma assign_frame:
  assumes "assign strict t key v st = Inr st'" and "n \<le> t"
  shows "unchanged_below n st st'" and "length st' = length st"
    and "new_objects_closed n st \<Longrightarrow> points_new n st v \<Longrightarrow> new_objects_closed n st'"
proof -
  from assms(1) have t: "t < length st"
    by (auto simp: assign_def split: if_splits)
  from assms(1) t have c: "st' = st \<or>
      st' = st[t := (st ! t)\<lparr>props_of := h_set_prop (props_of (st ! t)) key v\<rparr>]"
    by (auto simp: assign_def split: if_splits)
  from c show len: "length st' = length st" by auto
  have "is_array (st' ! a) = is_array (st ! a)" if "a < length st" for a
    using c that by (cases "a = t") auto
  with c assms(2) show u: "unchanged_below n st st'"
    by (auto simp: unchanged_below_def)
  assume cl: "new_objects_closed n st" and pv: "points_new n st v"
  show "new_objects_closed n st'"
    unfolding new_objects_closed_def
  proof (intro allI impI)
    fix a
    assume a: "a < length st'" and o: "n \<le> a \<and> \<not> is_array (st' ! a)"
    from u a len have arr: "is_array (st' ! a) = is_array (st ! a)"
      by (simp add: unchanged_below_def)
    with cl a len o have old: "list_all (\<lambda>p. points_new n st (snd p)) (props_of (st ! a))"
      by (simp add: new_objects_closed_def)
    have "list_all (\<lambda>p. points_new n st (snd p)) (props_of (st' ! a))"
    proof (cases "st' = st")
      case True
      with old show ?thesis by simp
    next
      case False
      with c have s: "st' = st[t := (st ! t)\<lparr>props_of := h_set_prop (props_of (st ! t)) key v\<rparr>]"
        by simp
      show ?thesis
      proof (cases "a = t")
        case True
        with s t old pv show ?thesis
          by (simp add: list_all_h_set_prop)
      next
        case False
        with s old show ?thesis by simp
      qed
    qed
    then show "list_all (\<lambda>p. points_new n st' (snd p)) (props_of (st' ! a))"
      unfolding list_all_iff by (auto intro: points_new_mono [OF _ u])
  qed
qed

lemma assign_error: "assign strict t key v st = Inl e \<Longrightarrow> merge_error e"
  by (auto simp: assign_def merge_error_def split: if_splits)

lemma merge_branch_Recurse:
  assumes "merge_branch st (h_get_prop ps key) oldVal = Recurse a c"
  shows "map_of ps key = Some (HRef a)" and "oldVal = HRef c"
    and "a < length st" and "\<not> is_array (st ! a)"
    and "c < length st" and "\<not> is_array (st ! c)"
  using assms
  by (auto simp: merge_branch_def h_get_prop_def h_isObject_def
      split: option.splits hval.splits if_splits)

lemma closed_own_object:
  assumes "new_objects_closed n st" and "n \<le> t" and "t < length st" and "\<not> is_array (st ! t)"
    and "map_of (props_of (st ! t)) key = Some (HRef a)" and "\<not> is_array (st ! a)"
  shows "n \<le> a"
proof -
  from assms(1-4) have "list_all (\<lambda>p. points_new n st (snd p)) (props_of (st ! t))"
    by (simp add: new_objects_closed_def)
  with map_of_SomeD [OF assms(5)] have "points_new n st (HRef a)"
    by (auto simp: list_all_iff)
  with assms(6) show ?thesis by (simp add: points_new_def)
qed


lemma store_merge_keys_Cons:
  "store_merge_keys fuel t b (key # keys) st =
     (case (if isValidKey key then map_of (props_of (st ! b)) key else None) of
        None \<Rightarrow> store_merge_keys fuel t b keys st
      | Some oldVal \<Rightarrow>
          (case merge_turn fuel t key oldVal st of
             (Inl e, st1) \<Rightarrow> (Inl e, st1)
           | (Inr v, st1) \<Rightarrow>
               (case assign True t key v st1 of
                  Inl e \<Rightarrow> (Inl e, st1)
                | Inr st2 \<Rightarrow> store_merge_keys fuel t b keys st2)))"
  unfolding merge_turn_def by (rule store_merge_keys.simps)

declare store_merge_keys.simps(2) [simp del]

text \<open>
  \<open>merge\<close> into one of the new objects writes below the address \<open>n\<close> nowhere: the
  objects it recurses into are new ones again.
\<close>

lemma store_merge_keys_frame:
  "store_merge_keys fuel t b keys st = (r, st') \<Longrightarrow> n \<le> t \<Longrightarrow> t < length st \<Longrightarrow>
   \<not> is_array (st ! t) \<Longrightarrow> new_objects_closed n st \<Longrightarrow>
   unchanged_below n st st' \<and> new_objects_closed n st' \<and> (\<forall>e. r = Inl e \<longrightarrow> merge_error e)"
proof (induction fuel arbitrary: t b keys st r st' rule: less_induct)
  case (less fuel)
  have turn: "unchanged_below n st st1 \<and> new_objects_closed n st1 \<and>
      (\<forall>e. rv = Inl e \<longrightarrow> merge_error e) \<and> (\<forall>v. rv = Inr v \<longrightarrow> points_new n st1 v)"
    if m: "merge_turn fuel t key oldVal st = (rv, st1)" and nt: "n \<le> t" and t: "t < length st"
      and o: "\<not> is_array (st ! t)" and cl: "new_objects_closed n st"
    for t key oldVal st rv st1
  proof (cases "merge_branch st (h_get_prop (props_of (st ! t)) key) oldVal")
    case (Recurse a c)
    note br = merge_branch_Recurse [OF Recurse]
    from closed_own_object [OF cl nt t o br(1) br(4)] have na: "n \<le> a" .
    show ?thesis
    proof (cases fuel)
      case 0
      with m Recurse cl show ?thesis
        by (auto simp: merge_turn_def unchanged_below_refl merge_error_def)
    next
      case (Suc k)
      obtain r1 s1 where c: "store_merge_keys k a c (map fst (props_of (st ! c))) st = (r1, s1)"
        by (cases "store_merge_keys k a c (map fst (props_of (st ! c))) st")
      from Suc have "k < fuel" by simp
      note ih = less.IH [OF this c na br(3) br(4) cl]
      from ih have u: "unchanged_below n st s1" by simp
      with br(3) have "a < length s1" by (simp add: unchanged_below_def)
      with na have "points_new n s1 (HRef a)" by (rule points_new_fresh)
      with m Recurse Suc c ih show ?thesis
        by (cases r1) (auto simp: merge_turn_def)
    qed
  next
    case Builtin
    with m cl show ?thesis
      by (auto simp: merge_turn_def unchanged_below_refl merge_error_def)
  next
    case (Unite x)
    obtain r1 s1 where c: "store_union [x, oldVal] st = (r1, s1)"
      by (cases "store_union [x, oldVal] st")
    note f = store_union_frame [OF c]
    from t nt have "n \<le> length st" by simp
    with f have "points_new n s1 r1" by (simp add: points_new_def)
    with m Unite c closed_new_array [OF cl f(1,3,4)] extends_unchanged_below [OF f(1)]
    show ?thesis by (auto simp: merge_turn_def)
  next
    case Clone
    with m have c: "store_clone (Suc (length st)) oldVal st = (rv, st1)"
      by (simp add: merge_turn_def)
    from t nt have "n \<le> length st" by simp
    with store_clone_frame [OF c, of n] cl extends_unchanged_below show ?thesis by blast
  qed
  from less.prems show ?case
  proof (induction keys arbitrary: st r st')
    case Nil
    then show ?case by (auto simp: unchanged_below_refl)
  next
    case (Cons key keys)
    show ?case
    proof (cases "if isValidKey key then map_of (props_of (st ! b)) key else None")
      case None
      with Cons.prems(1) have "store_merge_keys fuel t b keys st = (r, st')"
        by (simp add: store_merge_keys_Cons)
      from Cons.IH [OF this Cons.prems(2-5)] show ?thesis .
    next
      case (Some oldVal)
      obtain rv st1 where m: "merge_turn fuel t key oldVal st = (rv, st1)"
        by (cases "merge_turn fuel t key oldVal st")
      note tf = turn [OF m Cons.prems(2-5)]
      from tf have u1: "unchanged_below n st st1" and cl1: "new_objects_closed n st1" by simp_all
      show ?thesis
      proof (cases rv)
        case (Inl e)
        with Cons.prems(1) Some m tf show ?thesis
          by (auto simp: store_merge_keys_Cons)
      next
        case (Inr v)
        with tf have pv: "points_new n st1 v" by simp
        show ?thesis
        proof (cases "assign True t key v st1")
          case (Inl e)
          with Cons.prems(1) Some m Inr u1 cl1 assign_error [OF Inl] show ?thesis
            by (auto simp: store_merge_keys_Cons)
        next
          case st2: (Inr st2)
          note af = assign_frame [OF st2 Cons.prems(2)]
          from u1 af(1) have u2: "unchanged_below n st st2" by (rule unchanged_below_trans)
          from Cons.prems(3) u2 have t2: "t < length st2" by (simp add: unchanged_below_def)
          from Cons.prems(3,4) u2 have o2: "\<not> is_array (st2 ! t)"
            by (simp add: unchanged_below_def)
          from Cons.prems(1) Some m Inr st2
          have "store_merge_keys fuel t b keys st2 = (r, st')"
            by (simp add: store_merge_keys_Cons)
          from Cons.IH [OF this Cons.prems(2) t2 o2 af(3) [OF cl1 pv]] u2
          show ?thesis by (auto intro: unchanged_below_trans)
        qed
      qed
    qed
  qed
qed


lemma store_mergeDeep_loop_frame:
  "store_mergeDeep_loop t objects st = (r, st') \<Longrightarrow> n \<le> t \<Longrightarrow> t < length st \<Longrightarrow>
   \<not> is_array (st ! t) \<Longrightarrow> new_objects_closed n st \<Longrightarrow>
   unchanged_below n st st' \<and> (\<forall>e. r = Inl e \<longrightarrow> merge_error e)"
proof (induction objects arbitrary: st)
  case Nil
  then show ?case by (auto simp: unchanged_below_refl)
next
  case (Cons val vals)
  show ?case
  proof (cases val)
    case (HRef b)
    show ?thesis
    proof (cases "b < length st")
      case False
      with Cons.prems HRef show ?thesis
        by (auto simp: unchanged_below_refl merge_error_def)
    next
      case True
      obtain r1 st1 where
        m: "store_merge_keys (length st) t b (map fst (props_of (st ! b))) st = (r1, st1)"
        by (cases "store_merge_keys (length st) t b (map fst (props_of (st ! b))) st")
      note f = store_merge_keys_frame [OF m Cons.prems(2-5)]
      from f have u1: "unchanged_below n st st1" and cl1: "new_objects_closed n st1"
        by simp_all
      show ?thesis
      proof (cases r1)
        case (Inl e)
        with Cons.prems HRef True m f show ?thesis by auto
      next
        case (Inr u)
        with Cons.prems(1,3) HRef True m
        have l: "store_mergeDeep_loop t vals st1 = (r, st')" by simp
        from Cons.prems(3) u1 have t1: "t < length st1" by (simp add: unchanged_below_def)
        from Cons.prems(3,4) u1 have o1: "\<not> is_array (st1 ! t)"
          by (simp add: unchanged_below_def)
        from Cons.IH [OF l Cons.prems(2) t1 o1 cl1] u1 show ?thesis
          by (auto intro: unchanged_below_trans)
      qed
    qed
  qed (use Cons in auto)
qed

text \<open>The clone of an object is a new cell of the same kind.\<close>

lemma store_clone_object:
  assumes "store_clone fuel (HRef a) st = (Inr x, st1)"
  shows "\<exists>t. x = HRef t \<and> length st \<le> t \<and> t < length st1 \<and>
           is_array (st1 ! t) = is_array (st ! a) \<and> \<not> frozen (st1 ! t)"
proof (cases fuel)
  case 0
  with assms show ?thesis by simp
next
  case (Suc k)
  with assms have a: "a < length st" and p: "plain_object (st ! a)"
    by (auto split: if_splits)
  obtain rs s1 where c: "store_clone_props k (props_of (st ! a)) st = (rs, s1)"
    by (cases "store_clone_props k (props_of (st ! a)) st")
  from store_clone_props_frame [OF c, of 0] have "length st \<le> length s1"
    by (auto dest: extends_length)
  with assms Suc a p c show ?thesis
    by (cases rs) (auto simp: new_cell_def)
qed

text \<open>
  \<open>mergeDeep\<close> on an object \<open>orig\<close>, in a store whose cells from \<open>n\<close> on are closed
  (as they are when \<open>n\<close> is where the store ended before the literals of the call were
  made): no cell below \<open>n\<close> is written, and the result is a new object.
\<close>

lemma store_mergeDeep_frame:
  assumes "store_mergeDeep (HRef a) objects st = (r, st')"
    and "a < length st" and "\<not> is_array (st ! a)"
    and "n \<le> length st" and "new_objects_closed n st"
  shows "unchanged_below n st st' \<and> (\<forall>e. r = Inl e \<longrightarrow> merge_error e) \<and>
         (\<forall>x. r = Inr x \<longrightarrow>
            (\<exists>t. x = HRef t \<and> length st \<le> t \<and> t < length st' \<and> \<not> is_array (st' ! t)))"
proof -
  obtain r1 st1 where c: "store_clone (Suc (length st)) (HRef a) st = (r1, st1)"
    by (cases "store_clone (Suc (length st)) (HRef a) st")
  note cf = store_clone_frame [OF c, of n]
  from cf have e1: "extends st st1" by simp
  note u1 = extends_unchanged_below [OF e1, of n]
  show ?thesis
  proof (cases r1)
    case (Inl e)
    with assms(1) c cf u1 show ?thesis by (auto simp: store_mergeDeep_def)
  next
    case (Inr x)
    with c store_clone_object [of "Suc (length st)" a st x st1] assms(3)
    obtain t where x: "x = HRef t" and lt: "length st \<le> t" and t1: "t < length st1"
      and o1: "\<not> is_array (st1 ! t)" by auto
    from cf assms(4,5) have cl1: "new_objects_closed n st1" by simp
    obtain r2 st2 where l: "store_mergeDeep_loop t objects st1 = (r2, st2)"
      by (cases "store_mergeDeep_loop t objects st1")
    from assms(4) lt have nt: "n \<le> t" by simp
    note lf = store_mergeDeep_loop_frame [OF l nt t1 o1 cl1]
    from lf have u2: "unchanged_below n st1 st2" by simp
    from u1 u2 have u: "unchanged_below n st st2" by (rule unchanged_below_trans)
    from u2 t1 o1 have t2: "t < length st2" and o2: "\<not> is_array (st2 ! t)"
      by (simp_all add: unchanged_below_def)
    from assms(1) c Inr x l have "(r, st') = (case r2 of Inl e \<Rightarrow> (Inl e, st2)
        | Inr _ \<Rightarrow> (Inr (HRef t), st2))"
      by (simp add: store_mergeDeep_def split: sum.splits)
    with lf u lt t2 o2 show ?thesis by (cases r2) auto
  qed
qed

lemma closed_at_end: "new_objects_closed (length st) st"
  by (simp add: new_objects_closed_def)

lemma closed_new_cell_empty:
  assumes "new_objects_closed n st" and "new_cell [] arr st = (r, st')"
  shows "new_objects_closed n st'"
proof (rule closed_extend [OF assms(1) extends_new_cell [OF assms(2)]], intro allI impI)
  fix a
  assume "length st \<le> a \<and> a < length st' \<and> \<not> is_array (st' ! a)"
  with assms(2) have "a = length st" by (auto simp: new_cell_def)
  with assms(2) show "list_all (\<lambda>p. points_new n st' (snd p)) (props_of (st' ! a))"
    by (auto simp: new_cell_def)
qed

lemma closed_nullish_or_empty:
  assumes "new_objects_closed n st" and "nullish_or_empty v st = (r, st')"
  shows "new_objects_closed n st'" and "extends st st'"
  using assms closed_new_cell_empty [of n st False r st'] extends_new_cell [of "[]" False st r st']
  by (auto simp: nullish_or_empty_def extends_refl split: if_splits)

lemma unchanged_below_take:
  "unchanged_below (length st) st st' \<Longrightarrow> take (length st) st' = st"
  by (rule nth_equalityI) (auto simp: unchanged_below_def)

text \<open>Freezing a new cell leaves every cell that was there before as it was.\<close>

lemma construct_new_cell:
  assumes "construct s (HRef b) st1 = (u, st')" and "n \<le> b" and "b < length st1"
  shows "unchanged_below n st1 st'" and "stored_config u = HRef b" and "stored_schema u = s"
    and "length st' = length st1" and "frozen (st' ! b)"
proof -
  from assms(1,3) have s: "st' = st1[b := (st1 ! b)\<lparr>frozen := True\<rparr>]"
    and u: "u = \<lparr>stored_schema = s, stored_config = HRef b\<rparr>"
    by (auto simp: construct_def freeze_def)
  have "is_array (st' ! a) = is_array (st1 ! a)" if "a < length st1" for a
    using s that by (cases "a = b") auto
  with s assms(2) show "unchanged_below n st1 st'"
    by (auto simp: unchanged_below_def)
  from u show "stored_config u = HRef b" and "stored_schema u = s" by simp_all
  from s assms(3) show "length st' = length st1" and "frozen (st' ! b)" by simp_all
qed

lemma store_override_frame:
  assumes "store_override this cfg st = (r, st')"
  shows "take (length st) st' = st \<and> length st \<le> length st' \<and>
         (\<forall>u. r = Inr u \<longrightarrow>
            stored_schema u = stored_schema this \<and>
            (\<exists>b. stored_config u = HRef b \<and> length st \<le> b \<and> b < length st' \<and>
                 frozen (st' ! b))) \<and>
         (\<forall>e. r = Inl e \<longrightarrow> merge_error e)"
proof -
  let ?n = "length st"
  let ?st0 = "st @ [\<lparr>props_of = [], is_array = False, frozen = False\<rparr>]"
  have n0: "new_cell [] False st = (HRef ?n, ?st0)" by (simp add: new_cell_def)
  note cl0 = closed_new_cell_empty [OF closed_at_end n0]
  note u0 = extends_unchanged_below [OF extends_new_cell [OF n0], of ?n]
  obtain x st1 where m: "store_mergeDeep (HRef ?n) [stored_config this, cfg] ?st0 = (x, st1)"
    by (cases "store_mergeDeep (HRef ?n) [stored_config this, cfg] ?st0")
  have "unchanged_below ?n ?st0 st1 \<and> (\<forall>e. x = Inl e \<longrightarrow> merge_error e) \<and>
         (\<forall>v. x = Inr v \<longrightarrow>
            (\<exists>t. v = HRef t \<and> length ?st0 \<le> t \<and> t < length st1 \<and> \<not> is_array (st1 ! t)))"
    by (rule store_mergeDeep_frame [OF m _ _ _ cl0]) simp_all
  then have u1: "unchanged_below ?n ?st0 st1" and er: "\<forall>e. x = Inl e \<longrightarrow> merge_error e"
    and ok: "\<forall>v. x = Inr v \<longrightarrow> (\<exists>t. v = HRef t \<and> length ?st0 \<le> t \<and> t < length st1)"
    by auto
  from u0 u1 have u: "unchanged_below ?n st st1" by (rule unchanged_below_trans)
  show ?thesis
  proof (cases x)
    case (Inl e)
    with assms m n0 have "r = Inl e" and "st' = st1" by (auto simp: store_override_def)
    with er Inl u unchanged_below_take [OF u] show ?thesis
      by (auto simp: unchanged_below_def)
  next
    case (Inr v)
    with ok obtain t where v: "v = HRef t" and lt: "?n \<le> t" and t1: "t < length st1" by auto
    obtain u2 st2 where c: "construct (stored_schema this) (HRef t) st1 = (u2, st2)"
      by (cases "construct (stored_schema this) (HRef t) st1")
    note cf = construct_new_cell [OF c lt t1]
    from u cf(1) have uu: "unchanged_below ?n st st2" by (rule unchanged_below_trans)
    from assms m n0 Inr v c have "r = Inr u2" and "st' = st2" by (auto simp: store_override_def)
    with cf uu unchanged_below_take [OF uu] lt t1 show ?thesis
      by (auto simp: unchanged_below_def)
  qed
qed

lemma store_merge_frame:
  assumes "store_merge zod_merge this merging st = (r, st')"
  shows "take (length st) st' = st \<and> length st \<le> length st' \<and>
         (\<forall>u. r = Inr u \<longrightarrow>
            stored_schema u = zod_merge (stored_schema this) (stored_schema merging) \<and>
            (\<exists>b. stored_config u = HRef b \<and> length st \<le> b \<and> b < length st' \<and>
                 frozen (st' ! b))) \<and>
         (\<forall>e. r = Inl e \<longrightarrow> merge_error e)"
proof -
  let ?n = "length st"
  let ?st0 = "st @ [\<lparr>props_of = [], is_array = False, frozen = False\<rparr>]"
  have n0: "new_cell [] False st = (HRef ?n, ?st0)" by (simp add: new_cell_def)
  note cl0 = closed_new_cell_empty [OF closed_at_end n0]
  note e0 = extends_new_cell [OF n0]
  obtain c1 sa where n1: "nullish_or_empty (stored_config this) ?st0 = (c1, sa)"
    by (cases "nullish_or_empty (stored_config this) ?st0")
  obtain c2 sb where n2: "nullish_or_empty (stored_config merging) sa = (c2, sb)"
    by (cases "nullish_or_empty (stored_config merging) sa")
  note a = closed_nullish_or_empty [OF cl0 n1]
  note b = closed_nullish_or_empty [OF a(1) n2]
  note eb = extends_trans [OF extends_trans [OF e0 a(2)] b(2)]
  note ub = extends_unchanged_below [OF eb, of ?n]
  from extends_trans [OF a(2) b(2)] have e0b: "extends ?st0 sb" .
  from extends_nth [OF e0b, of ?n] extends_length [OF e0b]
  have o: "?n < length sb" "\<not> is_array (sb ! ?n)" by simp_all
  from extends_length [OF eb] have nb: "?n \<le> length sb" .
  obtain x st1 where m: "store_mergeDeep (HRef ?n) [c1, c2] sb = (x, st1)"
    by (cases "store_mergeDeep (HRef ?n) [c1, c2] sb")
  from store_mergeDeep_frame [OF m o nb b(1)]
  have u1: "unchanged_below ?n sb st1" and er: "\<forall>e. x = Inl e \<longrightarrow> merge_error e"
    and ok: "\<forall>v. x = Inr v \<longrightarrow> (\<exists>t. v = HRef t \<and> length sb \<le> t \<and> t < length st1)"
    by auto
  from ub u1 have u: "unchanged_below ?n st st1" by (rule unchanged_below_trans)
  show ?thesis
  proof (cases x)
    case (Inl e)
    with assms m n0 n1 n2 have "r = Inl e" and "st' = st1" by (auto simp: store_merge_def)
    with er Inl u unchanged_below_take [OF u] show ?thesis
      by (auto simp: unchanged_below_def)
  next
    case (Inr v)
    with ok nb obtain t where v: "v = HRef t" and lt: "?n \<le> t" and t1: "t < length st1"
      by fastforce
    obtain u2 st2 where c: "construct (zod_merge (stored_schema this) (stored_schema merging))
        (HRef t) st1 = (u2, st2)"
      by (cases "construct (zod_merge (stored_schema this) (stored_schema merging))
        (HRef t) st1")
    note cf = construct_new_cell [OF c lt t1]
    from u cf(1) have uu: "unchanged_below ?n st st2" by (rule unchanged_below_trans)
    from assms m n0 n1 n2 Inr v c have "r = Inr u2" and "st' = st2"
      by (auto simp: store_merge_def)
    with cf uu unchanged_below_take [OF uu] lt t1 show ?thesis
      by (auto simp: unchanged_below_def)
  qed
qed

section \<open>Freezing\<close>

text \<open>Writes reach no frozen cell, and no cell is removed.\<close>

lemma assign_frozen:
  "assign strict a key v st = Inr st' \<Longrightarrow>
   length st' = length st \<and> (\<forall>b < length st. frozen (st ! b) \<longrightarrow> st' ! b = st ! b)"
  by (auto simp: assign_def nth_list_update split: if_splits)

lemma delete_prop_frozen:
  "delete_prop strict a key st = Inr st' \<Longrightarrow>
   length st' = length st \<and> (\<forall>b < length st. frozen (st ! b) \<longrightarrow> st' ! b = st ! b)"
  by (auto simp: delete_prop_def nth_list_update split: if_splits)

lemma exec_stmts_frame:
  "exec_stmts stmts st = (r, st') \<Longrightarrow>
   length st' = length st \<and> (\<forall>b < length st. frozen (st ! b) \<longrightarrow> st' ! b = st ! b)"
proof (induction stmts st rule: exec_stmts.induct)
  case (1 st)
  then show ?case by simp
next
  case (2 strict a key v rest st)
  show ?case
  proof (cases "assign strict a key v st")
    case (Inl e)
    with 2 show ?thesis by simp
  next
    case (Inr st1)
    from assign_frozen [OF Inr] 2(1) [OF Inr] 2(2) Inr show ?thesis by auto
  qed
next
  case (3 strict a key rest st)
  show ?case
  proof (cases "delete_prop strict a key st")
    case (Inl e)
    with 3 show ?thesis by simp
  next
    case (Inr st1)
    from delete_prop_frozen [OF Inr] 3(1) [OF Inr] 3(2) Inr show ?thesis by auto
  qed
qed

lemma alloc_appends:
  "\<exists>ext. snd (alloc_val v st) = st @ ext"
  "\<exists>ext. snd (alloc_vals vs st) = st @ ext"
  "\<exists>ext. snd (alloc_props fs st) = st @ ext"
proof (induction v st and vs st and fs st rule: alloc_val_alloc_vals_alloc_props.induct)
  case (7 uu xs st)
  then show ?case by (auto simp: new_cell_def split: prod.splits)
next
  case (8 uv fs st)
  then show ?case by (auto simp: new_cell_def split: prod.splits)
next
  case (10 x xs st)
  obtain r st1 where a: "alloc_val x st = (r, st1)" by (cases "alloc_val x st")
  obtain rs st2 where b: "alloc_vals xs st1 = (rs, st2)" by (cases "alloc_vals xs st1")
  from 10(1) a obtain e1 where "st1 = st @ e1" by auto
  moreover from 10(2) [OF a [symmetric]] b obtain e2 where "st2 = st1 @ e2" by auto
  ultimately show ?case using a b by simp
next
  case (12 k x fs st)
  obtain r st1 where a: "alloc_val x st = (r, st1)" by (cases "alloc_val x st")
  obtain ps st2 where b: "alloc_props fs st1 = (ps, st2)" by (cases "alloc_props fs st1")
  from 12(1) a obtain e1 where "st1 = st @ e1" by auto
  moreover from 12(2) [OF a [symmetric]] b obtain e2 where "st2 = st1 @ e2" by auto
  ultimately show ?case using a b by simp
qed simp_all

lemma call_overrider_frame:
  assumes "call_overrider f cur st = (r, st')"
  shows "length st \<le> length st' \<and> (\<forall>b < length st. frozen (st ! b) \<longrightarrow> st' ! b = st ! b)"
proof -
  obtain stmts outcome where f: "f cur st = (stmts, outcome)" by (cases "f cur st")
  obtain x st1 where e: "exec_stmts stmts st = (x, st1)" by (cases "exec_stmts stmts st")
  note fr = exec_stmts_frame [OF e]
  show ?thesis
  proof (cases x)
    case (Inl err)
    with f e assms fr show ?thesis by (auto simp: call_overrider_def)
  next
    case (Inr u)
    show ?thesis
    proof (cases outcome)
      case (Inl err)
      with Inr f e assms fr show ?thesis by (auto simp: call_overrider_def)
    next
      case (Inr v)
      obtain y st2 where a: "alloc_val v st1 = (y, st2)" by (cases "alloc_val v st1")
      from alloc_appends(1) [of v st1] a obtain ext where "st2 = st1 @ ext" by auto
      with \<open>x = Inr u\<close> Inr f e a assms fr show ?thesis
        by (auto simp: call_overrider_def nth_append)
    qed
  qed
qed

lemma construct_object:
  assumes "a < length st"
  shows "construct s (HRef a) st =
           (\<lparr>stored_schema = s, stored_config = HRef a\<rparr>, st[a := (st ! a)\<lparr>frozen := True\<rparr>])"
  using assms by (simp add: construct_def freeze_def)

text \<open>
  C3, as stated: after construction no field of the data, at any depth, can be changed
  through any reference. For the data \<open>{db: {port: 1}}\<close>, the assignment
  \<open>d.db.port = 2\<close> after construction succeeds, and the unit's data reads
  \<open>{db: {port: 2}}\<close>.
\<close>

theorem deep_freeze_counterexample:
  "read_value (snd (construct () (HRef 0) nested_store))
     (stored_config (fst (construct () (HRef 0) nested_store))) =
     Some (JObj (Some 0) [(''db'', JObj (Some 1) [(''port'', JNum 1)])]) \<and>
   assign True 1 ''port'' (HNum 2) (snd (construct () (HRef 0) nested_store)) =
     Inr [\<lparr>props_of = [(''db'', HRef 1)], is_array = False, frozen = True\<rparr>,
          \<lparr>props_of = [(''port'', HNum 2)], is_array = False, frozen = False\<rparr>] \<and>
   read_value
     [\<lparr>props_of = [(''db'', HRef 1)], is_array = False, frozen = True\<rparr>,
      \<lparr>props_of = [(''port'', HNum 2)], is_array = False, frozen = False\<rparr>]
     (stored_config (fst (construct () (HRef 0) nested_store))) =
     Some (JObj (Some 0) [(''db'', JObj (Some 1) [(''port'', JNum 2)])])"
  by (simp add: construct_def freeze_def nested_store_def assign_def read_value_def)

text \<open>
  C3, amended: constructing a unit with the object \<open>d\<close> as data freezes \<open>d\<close>
  itself and no other object. From then on no write changes the fields \<open>d\<close> has,
  through whatever reference: an assignment to a field of \<open>d\<close>, or the deletion of
  one it has, raises a \<open>TypeError\<close> in strict mode and is ignored in sloppy mode. The
  objects nested in \<open>d\<close> stay as writable as they were. \<open>merge\<close> and \<open>override\<close>,
  wherever the model follows merge-deep to the end of the call, write to no object that
  exists when they are called, their operands included: what they write to are the
  objects merge-deep creates. They return a new unit whose data is a new object, frozen in
  its turn, or raise a \<open>RangeError\<close> (on cyclic data) or a \<open>TypeError\<close>.
\<close>

theorem construct_freezes_top_level_only:
  assumes "a < length st"
  shows "stored_config (fst (construct s (HRef a) st)) = HRef a \<and>
         length (snd (construct s (HRef a) st)) = length st \<and>
         frozen (snd (construct s (HRef a) st) ! a) \<and>
         props_of (snd (construct s (HRef a) st) ! a) = props_of (st ! a) \<and>
         (\<forall>b < length st. b \<noteq> a \<longrightarrow> snd (construct s (HRef a) st) ! b = st ! b) \<and>
         (\<forall>strict key v. assign strict a key v (snd (construct s (HRef a) st)) =
            (if strict then Inl TypeError else Inr (snd (construct s (HRef a) st)))) \<and>
         (\<forall>strict key. delete_prop strict a key (snd (construct s (HRef a) st)) =
            (if strict \<and> key \<in> fst ` set (props_of (st ! a)) then Inl TypeError
             else Inr (snd (construct s (HRef a) st)))) \<and>
         (\<forall>stmts r st2. exec_stmts stmts (snd (construct s (HRef a) st)) = (r, st2) \<longrightarrow>
            st2 ! a = snd (construct s (HRef a) st) ! a) \<and>
         (\<forall>b < length st. b \<noteq> a \<and> \<not> frozen (st ! b) \<longrightarrow>
            (\<forall>strict key v. \<exists>st2. assign strict b key v (snd (construct s (HRef a) st)) = Inr st2 \<and>
               map_of (props_of (st2 ! b)) key = Some v)) \<and>
         (store_override this cfg st0 = (r1, st1) \<and> r1 \<noteq> Inl Unmodelled \<longrightarrow>
            take (length st0) st1 = st0 \<and>
            (\<forall>u. r1 = Inr u \<longrightarrow>
               (\<exists>b. stored_config u = HRef b \<and> length st0 \<le> b \<and> b < length st1 \<and>
                    frozen (st1 ! b))) \<and>
            (\<forall>e. r1 = Inl e \<longrightarrow> e = RangeError \<or> e = TypeError)) \<and>
         (store_merge zod_merge this merging st0 = (r2, st2) \<and> r2 \<noteq> Inl Unmodelled \<longrightarrow>
            take (length st0) st2 = st0 \<and>
            (\<forall>u. r2 = Inr u \<longrightarrow>
               (\<exists>b. stored_config u = HRef b \<and> length st0 \<le> b \<and> b < length st2 \<and>
                    frozen (st2 ! b))) \<and>
            (\<forall>e. r2 = Inl e \<longrightarrow> e = RangeError \<or> e = TypeError))"
proof -
  let ?st1 = "snd (construct s (HRef a) st)"
  have c: "?st1 = st[a := (st ! a)\<lparr>frozen := True\<rparr>]"
    by (simp add: construct_object [OF assms])
  have fz: "frozen (?st1 ! a)" and len: "length ?st1 = length st"
    using assms by (simp_all add: c)
  have w: "\<forall>stmts r st2. exec_stmts stmts ?st1 = (r, st2) \<longrightarrow> st2 ! a = ?st1 ! a"
  proof (intro allI impI)
    fix stmts r st2
    assume "exec_stmts stmts ?st1 = (r, st2)"
    from exec_stmts_frame [OF this] fz len assms show "st2 ! a = ?st1 ! a" by simp
  qed
  have o: "store_override this cfg st0 = (r1, st1) \<and> r1 \<noteq> Inl Unmodelled \<longrightarrow>
            take (length st0) st1 = st0 \<and>
            (\<forall>u. r1 = Inr u \<longrightarrow>
               (\<exists>b. stored_config u = HRef b \<and> length st0 \<le> b \<and> b < length st1 \<and>
                    frozen (st1 ! b))) \<and>
            (\<forall>e. r1 = Inl e \<longrightarrow> e = RangeError \<or> e = TypeError)"
    using store_override_frame [of this cfg st0 r1 st1] by (auto simp: merge_error_def)
  have m: "store_merge zod_merge this merging st0 = (r2, st2) \<and> r2 \<noteq> Inl Unmodelled \<longrightarrow>
            take (length st0) st2 = st0 \<and>
            (\<forall>u. r2 = Inr u \<longrightarrow>
               (\<exists>b. stored_config u = HRef b \<and> length st0 \<le> b \<and> b < length st2 \<and>
                    frozen (st2 ! b))) \<and>
            (\<forall>e. r2 = Inl e \<longrightarrow> e = RangeError \<or> e = TypeError)"
    using store_merge_frame [of zod_merge this merging st0 r2 st2] by (auto simp: merge_error_def)
  have mp: "map_of (h_set_prop ps key v) key = Some v" for ps key v
    by (induction ps key v rule: h_set_prop.induct) auto
  have nested: "\<forall>b < length st. b \<noteq> a \<and> \<not> frozen (st ! b) \<longrightarrow>
            (\<forall>strict key v. \<exists>st2. assign strict b key v ?st1 = Inr st2 \<and>
               map_of (props_of (st2 ! b)) key = Some v)"
    by (auto simp: c assign_def mp)
  have basics: "stored_config (fst (construct s (HRef a) st)) = HRef a \<and>
         props_of (?st1 ! a) = props_of (st ! a) \<and>
         (\<forall>b < length st. b \<noteq> a \<longrightarrow> ?st1 ! b = st ! b) \<and>
         (\<forall>strict key v. assign strict a key v ?st1 =
            (if strict then Inl TypeError else Inr ?st1)) \<and>
         (\<forall>strict key. delete_prop strict a key ?st1 =
            (if strict \<and> key \<in> fst ` set (props_of (st ! a)) then Inl TypeError
             else Inr ?st1))"
    using assms by (simp add: construct_object [OF assms] assign_def delete_prop_def)
  from basics fz len w nested o m show ?thesis by blast
qed


theorem construct_freezes_top_level_only_witness:
  "frozen (snd (construct () (HRef 0) nested_store) ! 0) \<and>
   snd (construct () (HRef 0) nested_store) ! 1 = nested_store ! 1 \<and>
   assign True 0 ''db'' (HNum 7) (snd (construct () (HRef 0) nested_store)) = Inl TypeError \<and>
   assign False 0 ''db'' (HNum 7) (snd (construct () (HRef 0) nested_store)) =
     Inr (snd (construct () (HRef 0) nested_store)) \<and>
   delete_prop True 0 ''db'' (snd (construct () (HRef 0) nested_store)) = Inl TypeError \<and>
   snd (exec_stmts [Delete False 0 ''db'', Assign True 1 ''port'' (HNum 2)]
          (snd (construct () (HRef 0) nested_store))) ! 0 =
     snd (construct () (HRef 0) nested_store) ! 0 \<and>
   (\<exists>st2. assign True 1 ''port'' (HNum 2) (snd (construct () (HRef 0) nested_store)) = Inr st2 \<and>
      map_of (props_of (st2 ! 1)) ''port'' = Some (HNum 2)) \<and>
   take 7 (snd (store_override \<lparr>stored_schema = (), stored_config = HRef 0\<rparr> (HRef 3)
                  two_data_store)) = two_data_store \<and>
   take 2 (snd (store_merge (\<lambda>s t. s) (fst (construct () (HRef 0) nested_store))
                  (fst (construct () (HRef 0) nested_store))
                  (snd (construct () (HRef 0) nested_store)))) =
     snd (construct () (HRef 0) nested_store) \<and>
   fst (store_override \<lparr>stored_schema = (), stored_config = HRef 0\<rparr> (HRef 3) two_data_store) =
     Inr \<lparr>stored_schema = (), stored_config = HRef 8\<rparr> \<and>
   drop 7 (snd (store_override \<lparr>stored_schema = (), stored_config = HRef 0\<rparr> (HRef 3)
                  two_data_store)) =
     [\<lparr>props_of = [], is_array = False, frozen = False\<rparr>,
      \<lparr>props_of = [(''db'', HRef 9), (''tags'', HRef 11)], is_array = False, frozen = True\<rparr>,
      \<lparr>props_of = [(''port'', HNum 1), (''host'', HStr ''h'')], is_array = False,
       frozen = False\<rparr>,
      \<lparr>props_of = [(''0'', HStr ''a'')], is_array = True, frozen = False\<rparr>,
      \<lparr>props_of = [(''0'', HStr ''a''), (''1'', HRef 6), (''2'', HStr ''b'')], is_array = True,
       frozen = False\<rparr>]"
proof -
  let ?u = "fst (construct () (HRef 0) nested_store)"
  let ?st = "snd (construct () (HRef 0) nested_store)"
  let ?v = "\<lparr>stored_schema = (), stored_config = HRef 0\<rparr> :: unit stored_ZodFig"
  let ?ws = "[Delete False 0 ''db'', Assign True 1 ''port'' (HNum 2)]"
  have a: "0 < length nested_store" by (simp add: nested_store_def)
  have n: "length nested_store = 2" by (simp add: nested_store_def)
  have n7: "length two_data_store = 7" by (simp add: two_data_store_def)
  obtain r1 st1 where o: "store_override ?v (HRef 3) two_data_store = (r1, st1)"
    by (cases "store_override ?v (HRef 3) two_data_store")
  obtain r2 st2 where m: "store_merge (\<lambda>s t. s) ?u ?u ?st = (r2, st2)"
    by (cases "store_merge (\<lambda>s t. s) ?u ?u ?st")
  obtain r3 st3 where e: "exec_stmts ?ws ?st = (r3, st3)"
    by (cases "exec_stmts ?ws ?st")
  note t = construct_freezes_top_level_only [OF a, where s = "()" and this = ?v
      and cfg = "HRef 3" and ?st0.0 = two_data_store and ?r1.0 = r1 and ?st1.0 = st1]
  note t' = construct_freezes_top_level_only [OF a, where s = "()" and this = ?u
      and zod_merge = "\<lambda>s t. s" and merging = ?u and ?st0.0 = ?st and ?r2.0 = r2
      and ?st2.0 = st2]
  note l = t [THEN conjunct2, THEN conjunct1]
  note f = t [THEN conjunct2, THEN conjunct2, THEN conjunct1]
  note others = t [THEN conjunct2, THEN conjunct2, THEN conjunct2, THEN conjunct2, THEN conjunct1]
  note writes = t [THEN conjunct2, THEN conjunct2, THEN conjunct2, THEN conjunct2, THEN conjunct2,
      THEN conjunct1]
  note deletes = t [THEN conjunct2, THEN conjunct2, THEN conjunct2, THEN conjunct2,
      THEN conjunct2, THEN conjunct2, THEN conjunct1]
  note seqs = t [THEN conjunct2, THEN conjunct2, THEN conjunct2, THEN conjunct2, THEN conjunct2,
      THEN conjunct2, THEN conjunct2, THEN conjunct1]
  note nested = t [THEN conjunct2, THEN conjunct2, THEN conjunct2, THEN conjunct2, THEN conjunct2,
      THEN conjunct2, THEN conjunct2, THEN conjunct2, THEN conjunct1]
  note frame = t [THEN conjunct2, THEN conjunct2, THEN conjunct2, THEN conjunct2, THEN conjunct2,
      THEN conjunct2, THEN conjunct2, THEN conjunct2, THEN conjunct2, THEN conjunct1]
  note frame_merge = t' [THEN conjunct2, THEN conjunct2, THEN conjunct2, THEN conjunct2,
      THEN conjunct2, THEN conjunct2, THEN conjunct2, THEN conjunct2, THEN conjunct2,
      THEN conjunct2]
  from others n have k: "?st ! 1 = nested_store ! 1" by simp
  from writes have w1: "assign True 0 ''db'' (HNum 7) ?st = Inl TypeError"
    and w2: "assign False 0 ''db'' (HNum 7) ?st = Inr ?st" by simp_all
  from deletes have d: "delete_prop True 0 ''db'' ?st = Inl TypeError"
    by (simp add: nested_store_def)
  from seqs e have "st3 ! 0 = ?st ! 0" by blast
  with e have s: "snd (exec_stmts ?ws ?st) ! 0 = ?st ! 0" by simp
  have "(1::nat) < length nested_store \<and> (1::nat) \<noteq> 0 \<and> \<not> frozen (nested_store ! 1)"
    by (simp add: nested_store_def)
  with nested have ne: "\<exists>st2. assign True 1 ''port'' (HNum 2) ?st = Inr st2 \<and>
      map_of (props_of (st2 ! 1)) ''port'' = Some (HNum 2)"
    by blast
  have e1: "fst (store_override ?v (HRef 3) two_data_store) =
      Inr \<lparr>stored_schema = (), stored_config = HRef 8\<rparr>"
    by code_simp
  with o have n1: "r1 \<noteq> Inl Unmodelled" by auto
  have e2: "fst (store_merge (\<lambda>s t. s) ?u ?u ?st) =
      Inr \<lparr>stored_schema = (), stored_config = HRef 3\<rparr>"
    by code_simp
  with m have n2: "r2 \<noteq> Inl Unmodelled" by auto
  from frame o n1 have "take (length two_data_store) st1 = two_data_store"
    by blast
  with n7 o have p: "take 7 (snd (store_override ?v (HRef 3) two_data_store)) = two_data_store"
    by simp
  from frame_merge m n2 have "take (length ?st) st2 = ?st" by blast
  with l n m have q: "take 2 (snd (store_merge (\<lambda>s t. s) ?u ?u ?st)) = ?st" by simp
  have ev: "store_override ?v (HRef 3) two_data_store =
     (Inr \<lparr>stored_schema = (), stored_config = HRef 8\<rparr>,
      two_data_store @
      [\<lparr>props_of = [], is_array = False, frozen = False\<rparr>,
      \<lparr>props_of = [(''db'', HRef 9), (''tags'', HRef 11)], is_array = False, frozen = True\<rparr>,
      \<lparr>props_of = [(''port'', HNum 1), (''host'', HStr ''h'')], is_array = False,
       frozen = False\<rparr>,
      \<lparr>props_of = [(''0'', HStr ''a'')], is_array = True, frozen = False\<rparr>,
      \<lparr>props_of = [(''0'', HStr ''a''), (''1'', HRef 6), (''2'', HStr ''b'')], is_array = True,
       frozen = False\<rparr>])"
    by code_simp
  from ev n7 have x: "fst (store_override ?v (HRef 3) two_data_store) =
      Inr \<lparr>stored_schema = (), stored_config = HRef 8\<rparr>"
    and y: "drop 7 (snd (store_override ?v (HRef 3) two_data_store)) =
     [\<lparr>props_of = [], is_array = False, frozen = False\<rparr>,
      \<lparr>props_of = [(''db'', HRef 9), (''tags'', HRef 11)], is_array = False, frozen = True\<rparr>,
      \<lparr>props_of = [(''port'', HNum 1), (''host'', HStr ''h'')], is_array = False,
       frozen = False\<rparr>,
      \<lparr>props_of = [(''0'', HStr ''a'')], is_array = True, frozen = False\<rparr>,
      \<lparr>props_of = [(''0'', HStr ''a''), (''1'', HRef 6), (''2'', HStr ''b'')], is_array = True,
       frozen = False\<rparr>]"
    by simp_all
  from f k w1 w2 d s ne p q x y show ?thesis by (intro conjI)
qed


section \<open>overrideAync\<close>

text \<open>
  C5, as stated: when the overrider fails, the unit is left fully intact. The overrider
  is handed the unit's own data object, of which only the top level is frozen: one that
  sets \<open>cur.db.port\<close> to 99 and then throws leaves the unit with the data
  \<open>{db: {port: 99}}\<close>.
\<close>

theorem overrideAync_intact_counterexample:
  "fst (overrideAync (fst (construct () (HRef 0) nested_store)) failing_overrider
          (snd (construct () (HRef 0) nested_store))) = Inl (OtherError ''boom'') \<and>
   read_value (snd (construct () (HRef 0) nested_store))
     (stored_config (fst (construct () (HRef 0) nested_store))) =
     Some (JObj (Some 0) [(''db'', JObj (Some 1) [(''port'', JNum 1)])]) \<and>
   read_value
     (snd (overrideAync (fst (construct () (HRef 0) nested_store)) failing_overrider
             (snd (construct () (HRef 0) nested_store))))
     (stored_config (fst (construct () (HRef 0) nested_store))) =
     Some (JObj (Some 0) [(''db'', JObj (Some 1) [(''port'', JNum 99)])])"
  by (simp add: overrideAync_def call_overrider_def failing_overrider_def construct_def
      freeze_def nested_store_def assign_def read_value_def)

text \<open>
  C5, amended: \<open>u.overrideAync(f)\<close> resolves to what \<open>u.override(v)\<close> returns for the
  value \<open>v\<close> that \<open>f\<close> resolves to, in the store as \<open>f\<close> left it. If \<open>f\<close> fails,
  the promise fails with the same cause, no unit is produced, and \<open>overrideAync\<close>
  itself writes nothing: the store is as \<open>f\<close> left it. What \<open>f\<close> did is bounded by
  freezing alone: every frozen object, the top level of the unit's data among them, is
  as it was, and the objects nested in the data hold whatever \<open>f\<close> wrote to them.
\<close>

theorem overrideAync_outcome:
  "(call_overrider f (stored_config this) st = (Inr cfg, st1) \<longrightarrow>
      overrideAync this f st = store_override this cfg st1) \<and>
   (call_overrider f (stored_config this) st = (Inl e, st1) \<longrightarrow>
      overrideAync this f st = (Inl e, st1) \<and>
      length st \<le> length st1 \<and>
      (\<forall>b < length st. frozen (st ! b) \<longrightarrow> st1 ! b = st ! b))"
proof (intro conjI impI)
  assume "call_overrider f (stored_config this) st = (Inr cfg, st1)"
  then show "overrideAync this f st = store_override this cfg st1"
    by (simp add: overrideAync_def)
next
  assume c: "call_overrider f (stored_config this) st = (Inl e, st1)"
  then show "overrideAync this f st = (Inl e, st1)"
    by (simp add: overrideAync_def)
  from call_overrider_frame [OF c]
  show "length st \<le> length st1" and "\<forall>b < length st. frozen (st ! b) \<longrightarrow> st1 ! b = st ! b"
    by blast+
qed

theorem overrideAync_outcome_witness:
  "overrideAync (fst (construct () (HRef 0) nested_store)) failing_overrider
     (snd (construct () (HRef 0) nested_store)) =
     (Inl (OtherError ''boom''),
      [\<lparr>props_of = [(''db'', HRef 1)], is_array = False, frozen = True\<rparr>,
       \<lparr>props_of = [(''port'', HNum 99)], is_array = False, frozen = False\<rparr>]) \<and>
   overrideAync (fst (construct () (HRef 0) nested_store)) returning_overrider
     (snd (construct () (HRef 0) nested_store)) =
     store_override (fst (construct () (HRef 0) nested_store)) (HRef 3)
       [\<lparr>props_of = [(''db'', HRef 1)], is_array = False, frozen = True\<rparr>,
        \<lparr>props_of = [(''port'', HNum 1)], is_array = False, frozen = False\<rparr>,
        \<lparr>props_of = [(''port'', HNum 2)], is_array = False, frozen = False\<rparr>,
        \<lparr>props_of = [(''db'', HRef 2)], is_array = False, frozen = False\<rparr>]"
proof -
  let ?u = "fst (construct () (HRef 0) nested_store)"
  let ?st = "snd (construct () (HRef 0) nested_store)"
  let ?st1 = "[\<lparr>props_of = [(''db'', HRef 1)], is_array = False, frozen = True\<rparr>,
        \<lparr>props_of = [(''port'', HNum 99)], is_array = False, frozen = False\<rparr>]"
  let ?st2 = "[\<lparr>props_of = [(''db'', HRef 1)], is_array = False, frozen = True\<rparr>,
        \<lparr>props_of = [(''port'', HNum 1)], is_array = False, frozen = False\<rparr>,
        \<lparr>props_of = [(''port'', HNum 2)], is_array = False, frozen = False\<rparr>,
        \<lparr>props_of = [(''db'', HRef 2)], is_array = False, frozen = False\<rparr>]"
  have c: "call_overrider failing_overrider (stored_config ?u) ?st =
      (Inl (OtherError ''boom''), ?st1)"
    by (simp add: call_overrider_def failing_overrider_def construct_def freeze_def
        nested_store_def assign_def)
  have d: "call_overrider returning_overrider (stored_config ?u) ?st = (Inr (HRef 3), ?st2)"
    by (simp add: call_overrider_def returning_overrider_def construct_def freeze_def
        nested_store_def new_cell_def)
  from overrideAync_outcome [of failing_overrider ?u ?st undefined ?st1 "OtherError ''boom''"] c
  have x: "overrideAync ?u failing_overrider ?st = (Inl (OtherError ''boom''), ?st1)"
    by blast
  from overrideAync_outcome [of returning_overrider ?u ?st "HRef 3" ?st2 undefined] d
  have y: "overrideAync ?u returning_overrider ?st = store_override ?u (HRef 3) ?st2"
    by blast
  from x y show ?thesis by (intro conjI)
qed

section \<open>Validation\<close>

text \<open>On values, \<open>merge\<close> ends with no error but that of the call it does not follow.\<close>

lemma merge_Inl: "merge t ob = Inl e \<Longrightarrow> e = Unmodelled"
proof (induction ob arbitrary: t e rule: measure_induct_rule [where f = "size_list (size_prod (\<lambda>x. 0) size)"])
  case (less ob)
  show ?case
  proof (cases ob)
    case Nil
    with less.prems show ?thesis by simp
  next
    case (Cons p rest)
    obtain key oldVal where p: "p = (key, oldVal)" by (cases p)
    have rest: "merge t' rest = Inl e \<Longrightarrow> e = Unmodelled" for t'
      using less.IH [of rest t' e] Cons by simp
    show ?thesis
    proof (cases "isValidKey key")
      case False
      with less.prems Cons p rest [of t] show ?thesis by (simp add: merge_step)
    next
      case True
      show ?thesis
      proof (cases "merged_value (get_prop t key) oldVal")
        case (Inr v)
        with less.prems Cons p True rest [of "set_prop t key v"] show ?thesis
          by (simp add: merge_step)
      next
        case (Inl e')
        with less.prems Cons p True have e: "e' = e" by (simp add: merge_step)
        from Inl e have "e = Unmodelled \<or>
            (\<exists>i t0 j ob0. oldVal = JObj j ob0 \<and> merge t0 ob0 = Inl e)"
          by (auto simp: merged_value_def split: found.splits jval.splits sum.splits)
        then show ?thesis
        proof
          assume "\<exists>i t0 j ob0. oldVal = JObj j ob0 \<and> merge t0 ob0 = Inl e"
          then obtain t0 j ob0 where o: "oldVal = JObj j ob0" and m: "merge t0 ob0 = Inl e"
            by auto
          from less.IH [of ob0 t0 e] m o Cons p show ?thesis by simp
        qed
      qed
    qed
  qed
qed

lemma mergeDeep_loop_Inl: "mergeDeep_loop target objects = Inl e \<Longrightarrow> e = Unmodelled"
  by (induction target objects rule: mergeDeep_loop.induct)
    (auto split: if_splits sum.splits dest: merge_Inl)

lemma mergeDeep_error: "mergeDeep orig objects = Inl e \<Longrightarrow> e = Unmodelled"
  by (auto simp: mergeDeep_def split: sum.splits dest: mergeDeep_loop_Inl)

lemma merge_error_not_zod: "merge_error e \<Longrightarrow> e \<noteq> ZodError issues"
  by (auto simp: merge_error_def)

lemma store_override_error:
  "fst (store_override this cfg st) = Inl e \<Longrightarrow> merge_error e"
  using store_override_frame [of this cfg st "fst (store_override this cfg st)"
      "snd (store_override this cfg st)"]
  by (cases "store_override this cfg st") auto

lemma store_merge_error:
  "fst (store_merge zod_merge this merging st) = Inl e \<Longrightarrow> merge_error e"
  using store_merge_frame [of zod_merge this merging st
      "fst (store_merge zod_merge this merging st)" "snd (store_merge zod_merge this merging st)"]
  by (cases "store_merge zod_merge this merging st") auto

lemma overrideAync_error:
  assumes "fst (overrideAync this f st) = Inl e"
  shows "merge_error e \<or> fst (call_overrider f (stored_config this) st) = Inl e"
proof -
  obtain x st1 where c: "call_overrider f (stored_config this) st = (x, st1)"
    by (cases "call_overrider f (stored_config this) st")
  show ?thesis
  proof (cases x)
    case (Inl err)
    with c assms show ?thesis by (simp add: overrideAync_def)
  next
    case (Inr cfg)
    with c assms have "fst (store_override this cfg st1) = Inl e"
      by (simp add: overrideAync_def)
    then show ?thesis by (simp add: store_override_error)
  qed
qed

lemma run_reports_issues:
  assumes "existsSync h filepath"
    and "require h filepath = Inr (DefaultFunction (Inr (Returned_ZodFig zodfig)))"
    and "parse h (schema zodfig) (config zodfig) = Inl (ZodError issues)"
  shows "Issues issues \<in> set (console (snd (run h filepath print w)))"
    and "written (snd (run h filepath print w)) = written w"
  using assms
  by (simp_all add: run_def run_try_def Let_def run_catch_def run_after_def log_def)

text \<open>
  C8: the unit never raises a validation error of its own. The constructor stores the
  schema and the data it is given, whatever they are; \<open>merge\<close> and \<open>override\<close> fail
  with no \<open>ZodError\<close>, and the data they produce is computed from the data alone;
  \<open>overrideAync\<close> fails with a \<open>ZodError\<close> only when the overrider itself did.
  The schema's \<open>parse\<close> is applied by \<open>run\<close>, to the data of the unit the factory
  returned: data it rejects is reported there, and nothing is persisted.
\<close>

theorem ZodFig_never_validates:
  "fst (construct s c st) = \<lparr>stored_schema = s, stored_config = c\<rparr> \<and>
   new_ZodFig s d = \<lparr>schema = s, config = d\<rparr> \<and>
   fst (store_merge zod_merge this merging st) \<noteq> Inl (ZodError issues) \<and>
   fst (store_override this cfg st) \<noteq> Inl (ZodError issues) \<and>
   override u p \<noteq> Inl (ZodError issues) \<and>
   ZodFig_merge zm u v \<noteq> Inl (ZodError issues) \<and>
   map_sum id config (override u p) = map_sum id config (override (u\<lparr>schema := s'\<rparr>) p) \<and>
   map_sum id config (ZodFig_merge zm u v) =
     map_sum id config (ZodFig_merge zm' (u\<lparr>schema := s'\<rparr>) (v\<lparr>schema := s''\<rparr>)) \<and>
   (fst (overrideAync this f st) = Inl (ZodError issues) \<longrightarrow>
      fst (call_overrider f (stored_config this) st) = Inl (ZodError issues)) \<and>
   (existsSync h filepath \<and>
    require h filepath = Inr (DefaultFunction (Inr (Returned_ZodFig zodfig))) \<and>
    parse h (schema zodfig) (config zodfig) = Inl (ZodError issues) \<longrightarrow>
      Issues issues \<in> set (console (snd (run h filepath print w))) \<and>
      written (snd (run h filepath print w)) = written w)"
proof (intro conjI impI)
  show "fst (construct s c st) = \<lparr>stored_schema = s, stored_config = c\<rparr>"
    by (simp add: construct_def)
  show "new_ZodFig s d = \<lparr>schema = s, config = d\<rparr>"
    by (simp add: new_ZodFig_def)
  show "fst (store_merge zod_merge this merging st) \<noteq> Inl (ZodError issues)"
    using store_merge_error [of zod_merge this merging st "ZodError issues"]
    by (auto dest: merge_error_not_zod)
  show "fst (store_override this cfg st) \<noteq> Inl (ZodError issues)"
    using store_override_error [of this cfg st "ZodError issues"]
    by (auto dest: merge_error_not_zod)
  show "override u p \<noteq> Inl (ZodError issues)"
    using mergeDeep_error [of "[]" "[config u, p]" "ZodError issues"]
    by (auto simp: override_def split: sum.splits)
  show "ZodFig_merge zm u v \<noteq> Inl (ZodError issues)"
    using mergeDeep_error [of "[]" "[nullish_or (config u) (JObj None []),
      nullish_or (config v) (JObj None [])]" "ZodError issues"]
    by (auto simp: ZodFig_merge_def split: sum.splits)
  show "map_sum id config (override u p) = map_sum id config (override (u\<lparr>schema := s'\<rparr>) p)"
    by (simp add: override_def new_ZodFig_def split: sum.splits)
  show "map_sum id config (ZodFig_merge zm u v) =
        map_sum id config (ZodFig_merge zm' (u\<lparr>schema := s'\<rparr>) (v\<lparr>schema := s''\<rparr>))"
    by (simp add: ZodFig_merge_def new_ZodFig_def split: sum.splits)
next
  assume "fst (overrideAync this f st) = Inl (ZodError issues)"
  from overrideAync_error [OF this]
  show "fst (call_overrider f (stored_config this) st) = Inl (ZodError issues)"
    by (auto dest: merge_error_not_zod)
next
  assume a: "existsSync h filepath \<and>
    require h filepath = Inr (DefaultFunction (Inr (Returned_ZodFig zodfig))) \<and>
    parse h (schema zodfig) (config zodfig) = Inl (ZodError issues)"
  then show "Issues issues \<in> set (console (snd (run h filepath print w)))"
    by (intro run_reports_issues(1) [of h filepath zodfig]) simp_all
  from a show "written (snd (run h filepath print w)) = written w"
    by (intro run_reports_issues(2) [of h filepath zodfig issues]) simp_all
qed


theorem ZodFig_never_validates_witness:
  "fst (overrideAync (fst (construct () (HRef 0) nested_store)) validating_overrider
          (snd (construct () (HRef 0) nested_store))) =
     Inl (ZodError [([''port''], ''Expected number'')]) \<and>
   fst (call_overrider validating_overrider
          (stored_config (fst (construct () (HRef 0) nested_store)))
          (snd (construct () (HRef 0) nested_store))) =
     Inl (ZodError [([''port''], ''Expected number'')]) \<and>
   Issues [([''port''], ''Expected number'')] \<in>
     set (console (snd (run rejecting_host ''zodfig.ts'' False quiet_world))) \<and>
   written (snd (run rejecting_host ''zodfig.ts'' False quiet_world)) = [] \<and>
   Issues [([''port''], ''Expected number'')] \<in>
     set (console (snd (run rejecting_host ''zodfig.ts'' False
       (quiet_world\<lparr>isWatching := True\<rparr>))))"
proof -
  let ?u = "fst (construct () (HRef 0) nested_store)"
  let ?st = "snd (construct () (HRef 0) nested_store)"
  let ?z = "new_ZodFig () (JObj None [(''port'', JStr ''x'')])"
  let ?is = "[([''port''], ''Expected number'')]"
  have o: "fst (overrideAync ?u validating_overrider ?st) = Inl (ZodError ?is)"
    by (simp add: overrideAync_def call_overrider_def validating_overrider_def)
  have h: "existsSync rejecting_host ''zodfig.ts'' \<and>
    require rejecting_host ''zodfig.ts'' = Inr (DefaultFunction (Inr (Returned_ZodFig ?z))) \<and>
    parse rejecting_host (schema ?z) (config ?z) = Inl (ZodError ?is)"
    by (simp add: rejecting_host_def)
  note t = ZodFig_never_validates [where this = ?u and st = ?st and issues = ?is
      and f = validating_overrider and h = rejecting_host and filepath = "''zodfig.ts''"
      and zodfig = ?z and print = False and w = quiet_world]
  note t' = ZodFig_never_validates [where issues = ?is
      and h = rejecting_host and filepath = "''zodfig.ts''"
      and zodfig = ?z and print = False and w = "quiet_world\<lparr>isWatching := True\<rparr>"]
  note ov = t [THEN conjunct2, THEN conjunct2, THEN conjunct2, THEN conjunct2, THEN conjunct2,
      THEN conjunct2, THEN conjunct2, THEN conjunct2, THEN conjunct1]
  note rn = t [THEN conjunct2, THEN conjunct2, THEN conjunct2, THEN conjunct2, THEN conjunct2,
      THEN conjunct2, THEN conjunct2, THEN conjunct2, THEN conjunct2]
  note rn' = t' [THEN conjunct2, THEN conjunct2, THEN conjunct2, THEN conjunct2, THEN conjunct2,
      THEN conjunct2, THEN conjunct2, THEN conjunct2, THEN conjunct2]
  from ov o have c: "fst (call_overrider validating_overrider (stored_config ?u) ?st) =
      Inl (ZodError ?is)"
    by (elim impE) assumption+
  from rn h have r: "Issues ?is \<in> set (console (snd (run rejecting_host ''zodfig.ts'' False
      quiet_world))) \<and> written (snd (run rejecting_host ''zodfig.ts'' False quiet_world)) =
      written quiet_world"
    by (elim impE) assumption+
  from rn' h have r': "Issues ?is \<in> set (console (snd (run rejecting_host ''zodfig.ts'' False
      (quiet_world\<lparr>isWatching := True\<rparr>)))) \<and>
      written (snd (run rejecting_host ''zodfig.ts'' False (quiet_world\<lparr>isWatching := True\<rparr>))) =
      written (quiet_world\<lparr>isWatching := True\<rparr>)"
    by (elim impE) assumption+
  from o c r r' show ?thesis by (simp add: quiet_world_def)
qed

end
